theory Spec2Isabelle
  imports Complex_Main "HOL-Library.Stream" "HOL-Library.Char_ord" "HOL-Library.List_Lexorder"
    "HOL-Library.Multiset" "HOL-Library.Sublist"
begin

section \<open>Thomson problem solver (src/ThomsonProblem/script.js)\<close>

text \<open>
  A shallow embedding of the class \<open>ThomsonSimulation\<close> and of the function
  \<open>calculateEdgeGroups\<close>.

  Conventions of the embedding.
  \<^item> A JavaScript Number is a \<open>real\<close>: arithmetic is exact, there is no rounding, no
    NaN and no overflow. The one infinite value the class stores (\<open>Infinity\<close>, the
    initial \<open>bestEnergy\<close> and \<open>deltaEnergy\<close>) is the constructor \<open>Infinity\<close> of the
    type \<open>num\<close> below.
  \<^item> \<open>THREE.Vector3\<close> is a library class; its methods are modelled after three.js
    (\<open>normalize\<close> divides by \<open>length() || 1\<close>).
  \<^item> \<open>Math.random()\<close> reads the head of a stream of reals that is threaded through.
  \<^item> A \<open>Vector3\<close> stored in a configuration is an object with an identity: it lives in
    a store at an address, a configuration is the list of the addresses of its points,
    and the methods that change points in place update the store. Vectors that never
    leave the method creating them (\<open>diff\<close>, \<open>force\<close>, \<open>normal\<close>, the force
    accumulators) are plain values.
  \<^item> A \<open>for\<close> loop over indices is a \<open>fold\<close> over \<open>[a..<b]\<close>; a \<open>while\<close> loop is a
    recursive function with a termination proof.
\<close>

subsection \<open>THREE.Vector3\<close>

datatype Vector3 = Vector3 (vx: real) (vy: real) (vz: real)

definition zeroVector :: Vector3 where
  "zeroVector = Vector3 0 0 0"

definition dot :: "Vector3 \<Rightarrow> Vector3 \<Rightarrow> real" where
  "dot a b = vx a * vx b + vy a * vy b + vz a * vz b"

definition lengthSq :: "Vector3 \<Rightarrow> real" where
  "lengthSq a = vx a * vx a + vy a * vy a + vz a * vz a"

definition vlength :: "Vector3 \<Rightarrow> real" where
  "vlength a = sqrt (lengthSq a)"

definition add :: "Vector3 \<Rightarrow> Vector3 \<Rightarrow> Vector3" where
  "add a b = Vector3 (vx a + vx b) (vy a + vy b) (vz a + vz b)"

definition sub :: "Vector3 \<Rightarrow> Vector3 \<Rightarrow> Vector3" where
  "sub a b = Vector3 (vx a - vx b) (vy a - vy b) (vz a - vz b)"

definition subVectors :: "Vector3 \<Rightarrow> Vector3 \<Rightarrow> Vector3" where
  "subVectors a b = Vector3 (vx a - vx b) (vy a - vy b) (vz a - vz b)"

definition multiplyScalar :: "Vector3 \<Rightarrow> real \<Rightarrow> Vector3" where
  "multiplyScalar a s = Vector3 (vx a * s) (vy a * s) (vz a * s)"

definition divideScalar :: "Vector3 \<Rightarrow> real \<Rightarrow> Vector3" where
  "divideScalar a s = multiplyScalar a (1 / s)"

definition addScaledVector :: "Vector3 \<Rightarrow> Vector3 \<Rightarrow> real \<Rightarrow> Vector3" where
  "addScaledVector a v s = Vector3 (vx a + vx v * s) (vy a + vy v * s) (vz a + vz v * s)"

text \<open>\<open>normalize\<close>: \<open>this.divideScalar(this.length() || 1)\<close>; a zero length is falsy.\<close>

definition normalize :: "Vector3 \<Rightarrow> Vector3" where
  "normalize a = divideScalar a (if vlength a = 0 then 1 else vlength a)"

definition distanceToSquared :: "Vector3 \<Rightarrow> Vector3 \<Rightarrow> real" where
  "distanceToSquared a b =
     (let dx = vx a - vx b; dy = vy a - vy b; dz = vz a - vz b
      in dx * dx + dy * dy + dz * dz)"

definition distanceTo :: "Vector3 \<Rightarrow> Vector3 \<Rightarrow> real" where
  "distanceTo a b = sqrt (distanceToSquared a b)"

subsection \<open>The energy model\<close>

text \<open>
  \<^verbatim>\<open>
  calculateEnergy(points) {
      let energy = 0;
      for (let i = 0; i < points.length; i++) {
          for (let j = i + 1; j < points.length; j++) {
              const dist = points[i].distanceTo(points[j]);
              if (dist > 1e-9) { energy += 1 / dist; }
              else { energy += 1e9; }
          }
      }
      return energy;
  }
  \<close>
\<close>

definition energyPair :: "Vector3 list \<Rightarrow> nat \<Rightarrow> nat \<Rightarrow> real \<Rightarrow> real" where
  "energyPair ps i j e =
     (let dist = distanceTo (ps ! i) (ps ! j)
      in if dist > 1 / 10 ^ 9 then e + 1 / dist else e + 10 ^ 9)"

definition calculateEnergy :: "Vector3 list \<Rightarrow> real" where
  "calculateEnergy ps =
     fold (\<lambda>i e. fold (\<lambda>j e. energyPair ps i j e) [i + 1..<length ps] e)
          [0..<length ps] 0"

text \<open>
  The contribution of one pair in the words of the specification: the inverse distance,
  and the fixed penalty \<open>1e9\<close> for a pair at distance not exceeding \<open>1e-9\<close>.
\<close>

definition pairTerm :: "Vector3 \<Rightarrow> Vector3 \<Rightarrow> real" where
  "pairTerm p q = (if distanceTo p q \<le> 1 / 10 ^ 9 then 10 ^ 9 else 1 / distanceTo p q)"

subsection \<open>Numbers that may be infinite, errors\<close>

text \<open>
  \<open>bestEnergy\<close> and \<open>deltaEnergy\<close> start at \<open>Infinity\<close>; \<open>Infinity - Infinity\<close> is \<open>NaN\<close>,
  and every comparison with \<open>NaN\<close> is false.
\<close>

datatype num = Finite real | Infinity | NaN

fun numGreater :: "num \<Rightarrow> real \<Rightarrow> bool" where
  "numGreater (Finite a) b = (a > b)"
| "numGreater Infinity b = True"
| "numGreater NaN b = False"

fun lessNum :: "real \<Rightarrow> num \<Rightarrow> bool" where
  "lessNum a (Finite b) = (a < b)"
| "lessNum a Infinity = True"
| "lessNum a NaN = False"

text \<open>\<open>Math.abs(a - b)\<close>\<close>

fun absDiff :: "num \<Rightarrow> num \<Rightarrow> num" where
  "absDiff (Finite a) (Finite b) = Finite \<bar>a - b\<bar>"
| "absDiff Infinity (Finite b) = Infinity"
| "absDiff (Finite a) Infinity = Infinity"
| "absDiff Infinity Infinity = NaN"
| "absDiff NaN b = NaN"
| "absDiff a NaN = NaN"

text \<open>Reading a property of \<open>undefined\<close> throws a \<open>TypeError\<close>.\<close>

datatype error = TypeError

definition bindE :: "error + 'a \<Rightarrow> ('a \<Rightarrow> error + 'b) \<Rightarrow> error + 'b" where
  "bindE m f = (case m of Inl e \<Rightarrow> Inl e | Inr a \<Rightarrow> f a)"

subsection \<open>The store of points and the random source\<close>

record world =
  mem :: "nat \<Rightarrow> Vector3"
  nextAddr :: nat
  rnd :: "real stream"

text \<open>\<open>new THREE.Vector3(...)\<close> and \<open>p.clone()\<close>, for a vector kept in a configuration.\<close>

definition alloc :: "Vector3 \<Rightarrow> world \<Rightarrow> nat \<times> world" where
  "alloc v w = (nextAddr w, w\<lparr>mem := (mem w)(nextAddr w := v), nextAddr := Suc (nextAddr w)\<rparr>)"

text \<open>\<open>Math.random()\<close>\<close>

definition random :: "world \<Rightarrow> real \<times> world" where
  "random w = (shd (rnd w), w\<lparr>rnd := stl (rnd w)\<rparr>)"

text \<open>
  \<^verbatim>\<open>
  randomPointOnSphere() {
      const u = Math.random();
      const v = Math.random();
      const theta = 2 * Math.PI * u;
      const phi = Math.acos(2 * v - 1);
      const x = Math.sin(phi) * Math.cos(theta);
      const y = Math.sin(phi) * Math.sin(theta);
      const z = Math.cos(phi);
      return new THREE.Vector3(x, y, z);
  }
  \<close>
\<close>

definition randomPointOnSphere :: "world \<Rightarrow> Vector3 \<times> world" where
  "randomPointOnSphere w =
     (let (u, w1) = random w;
          (v, w2) = random w1;
          theta = 2 * pi * u;
          phi = arccos (2 * v - 1);
          x = sin phi * cos theta;
          y = sin phi * sin theta;
          z = cos phi
      in (Vector3 x y z, w2))"

subsection \<open>The local optimizer\<close>

text \<open>
  \<^verbatim>\<open>
  gradientDescent(points, lr) {
      const maxIter = 10000; // Safety break
      let iter = 0;
      let deltaEnergy = Infinity;
      let currentEnergy = this.calculateEnergy(points);
      while (deltaEnergy > convergenceThreshold && iter < maxIter) {
          const forces = new Array(points.length).fill(0).map(() => new THREE.Vector3());
          for (let i = 0; i < points.length; i++) {
              for (let j = i + 1; j < points.length; j++) {
                  const diff = new THREE.Vector3().subVectors(points[i], points[j]);
                  const distSq = diff.lengthSq();
                  const dist = Math.sqrt(distSq);
                  if (dist > 1e-9) {
                      const forceMag = 1 / (distSq * dist);
                      const force = diff.multiplyScalar(forceMag);
                      forces[i].add(force);
                      forces[j].sub(force);
                  }
              }
          }
          for (let i = 0; i < points.length; i++) {
              const normal = points[i].clone();
              const dot = forces[i].dot(normal);
              forces[i].sub(normal.multiplyScalar(dot));
              points[i].addScaledVector(forces[i], lr);
              points[i].normalize();
          }
          const newEnergy = this.calculateEnergy(points);
          deltaEnergy = Math.abs(currentEnergy - newEnergy);
          currentEnergy = newEnergy;
          iter++;
      }
  }
  \<close>
  The first pair of loops reads the points and writes the force accumulators only, so it
  is a function of the values of the points. The second loop writes the points in place,
  one after the other, through the store.
\<close>

definition applyForce :: "Vector3 list \<Rightarrow> nat \<Rightarrow> nat \<Rightarrow> Vector3 list \<Rightarrow> Vector3 list" where
  "applyForce ps i j forces =
     (let diff = subVectors (ps ! i) (ps ! j);
          distSq = lengthSq diff;
          dist = sqrt distSq
      in if dist > 1 / 10 ^ 9 then
           (let forceMag = 1 / (distSq * dist);
                force = multiplyScalar diff forceMag;
                forces1 = forces[i := add (forces ! i) force]
            in forces1[j := sub (forces1 ! j) force])
         else forces)"

definition computeForces :: "Vector3 list \<Rightarrow> Vector3 list" where
  "computeForces ps =
     fold (\<lambda>i forces. fold (\<lambda>j forces. applyForce ps i j forces) [i + 1..<length ps] forces)
          [0..<length ps] (replicate (length ps) zeroVector)"

definition movePoint :: "nat list \<Rightarrow> Vector3 list \<Rightarrow> real \<Rightarrow> nat \<Rightarrow> world \<Rightarrow> world" where
  "movePoint pts forces lr i w =
     (let normal = mem w (pts ! i);
          d = dot (forces ! i) normal;
          f = sub (forces ! i) (multiplyScalar normal d);
          p = normalize (addScaledVector (mem w (pts ! i)) f lr)
      in w\<lparr>mem := (mem w)(pts ! i := p)\<rparr>)"

definition gdIteration :: "nat list \<Rightarrow> real \<Rightarrow> world \<Rightarrow> world" where
  "gdIteration pts lr w =
     (let forces = computeForces (map (mem w) pts)
      in fold (movePoint pts forces lr) [0..<length pts] w)"

definition maxIter :: nat where
  "maxIter = 10000"

text \<open>
  The \<open>while\<close> loop on its variables: the store, \<open>deltaEnergy\<close>, \<open>currentEnergy\<close> and
  \<open>iter\<close>. The global \<open>convergenceThreshold\<close> is the parameter \<open>thr\<close>.
\<close>

function gdLoop :: "real \<Rightarrow> nat list \<Rightarrow> real \<Rightarrow> world \<times> num \<times> real \<times> nat \<Rightarrow> world \<times> num \<times> real \<times> nat" where
  "gdLoop thr pts lr (w, deltaEnergy, currentEnergy, iter) =
     (if numGreater deltaEnergy thr \<and> iter < maxIter then
        (let w' = gdIteration pts lr w;
             newEnergy = calculateEnergy (map (mem w') pts)
         in gdLoop thr pts lr (w', Finite \<bar>currentEnergy - newEnergy\<bar>, newEnergy, iter + 1))
      else (w, deltaEnergy, currentEnergy, iter))"
  by pat_completeness auto
termination
  by (relation "measure (\<lambda>(thr, pts, lr, w, deltaEnergy, currentEnergy, iter). maxIter - iter)") auto

declare gdLoop.simps [simp del]

definition gradientDescent :: "real \<Rightarrow> nat list \<Rightarrow> real \<Rightarrow> world \<Rightarrow> world" where
  "gradientDescent thr pts lr w =
     fst (gdLoop thr pts lr (w, Infinity, calculateEnergy (map (mem w) pts), 0))"

subsection \<open>Crossover and mutation\<close>

text \<open>
  \<^verbatim>\<open>
  crossover(parentA, parentB) {
      const normal = this.randomPointOnSphere();
      const child = [];
      for (let p of parentA) { if (p.dot(normal) >= 0) child.push(p.clone()); }
      for (let p of parentB) { if (p.dot(normal) < 0) child.push(p.clone()); }
      while (child.length < this.n) { child.push(this.randomPointOnSphere()); }
      while (child.length > this.n) {
          let minDist = Infinity;
          let removeIdx = -1;
          for (let i = 0; i < child.length; i++) {
              for (let j = i + 1; j < child.length; j++) {
                  const d = child[i].distanceTo(child[j]);
                  if (d < minDist) { minDist = d; removeIdx = i; }
              }
          }
          if (removeIdx !== -1) { child.splice(removeIdx, 1); } else { child.pop(); }
      }
      return child;
  }
  \<close>
  \<open>removeIdx\<close> is a \<open>nat option\<close>, \<open>None\<close> for \<open>-1\<close>.
\<close>

definition inheritPoint :: "(Vector3 \<Rightarrow> bool) \<Rightarrow> nat \<Rightarrow> nat list \<times> world \<Rightarrow> nat list \<times> world" where
  "inheritPoint keep p cw =
     (let (child, w) = cw
      in if keep (mem w p) then (let (a, w') = alloc (mem w p) w in (child @ [a], w'))
         else (child, w))"

function padChild :: "nat \<Rightarrow> nat list \<times> world \<Rightarrow> nat list \<times> world" where
  "padChild n (child, w) =
     (if length child < n then
        (let (v, w1) = randomPointOnSphere w;
             (a, w2) = alloc v w1
         in padChild n (child @ [a], w2))
      else (child, w))"
  by pat_completeness auto
termination
  by (relation "measure (\<lambda>(n, child, w). n - length child)") auto

declare padChild.simps [simp del]

definition scanPair :: "Vector3 list \<Rightarrow> nat \<Rightarrow> nat \<Rightarrow> num \<times> nat option \<Rightarrow> num \<times> nat option" where
  "scanPair ps i j st =
     (let (minDist, removeIdx) = st;
          d = distanceTo (ps ! i) (ps ! j)
      in if lessNum d minDist then (Finite d, Some i) else (minDist, removeIdx))"

definition findRemoveIdx :: "Vector3 list \<Rightarrow> nat option" where
  "findRemoveIdx ps =
     snd (fold (\<lambda>i st. fold (\<lambda>j st. scanPair ps i j st) [i + 1..<length ps] st)
               [0..<length ps] (Infinity, None))"

text \<open>\<open>child.splice(removeIdx, 1)\<close>\<close>

definition splice1 :: "nat \<Rightarrow> 'a list \<Rightarrow> 'a list" where
  "splice1 i xs = take i xs @ drop (Suc i) xs"

lemma scanPair_bound:
  "i < n \<Longrightarrow> (\<forall>r. snd st = Some r \<longrightarrow> r < n) \<Longrightarrow> snd (scanPair ps i j st) = Some r \<Longrightarrow> r < n"
  by (cases st) (auto simp: scanPair_def Let_def split: if_splits)

lemma scanInner_bound:
  "i < n \<Longrightarrow> (\<forall>r. snd st = Some r \<longrightarrow> r < n)
   \<Longrightarrow> snd (fold (\<lambda>j st. scanPair ps i j st) js st) = Some r \<Longrightarrow> r < n"
proof (induction js arbitrary: st)
  case Nil
  then show ?case by simp
next
  case (Cons j js)
  have "\<forall>r. snd (scanPair ps i j st) = Some r \<longrightarrow> r < n"
    using Cons.prems(1,2) scanPair_bound by blast
  then show ?case
    using Cons.IH [of "scanPair ps i j st"] Cons.prems by simp
qed

lemma scanOuter_bound:
  "set is \<subseteq> {..<n} \<Longrightarrow> (\<forall>r. snd st = Some r \<longrightarrow> r < n)
   \<Longrightarrow> snd (fold (\<lambda>i st. fold (\<lambda>j st. scanPair ps i j st) (js i) st) is st) = Some r \<Longrightarrow> r < n"
proof (induction "is" arbitrary: st)
  case Nil
  then show ?case by simp
next
  case (Cons i "is")
  have "i < n" using Cons.prems(1) by simp
  then have "\<forall>r. snd (fold (\<lambda>j st. scanPair ps i j st) (js i) st) = Some r \<longrightarrow> r < n"
    using Cons.prems(2) scanInner_bound by blast
  then show ?case
    using Cons.IH [of "fold (\<lambda>j st. scanPair ps i j st) (js i) st"] Cons.prems by simp
qed

lemma findRemoveIdx_bound: "findRemoveIdx ps = Some r \<Longrightarrow> r < length ps"
proof -
  assume a: "findRemoveIdx ps = Some r"
  have s: "set [0..<length ps] \<subseteq> {..<length ps}" by auto
  have i: "\<forall>r. snd (Infinity, None :: nat option) = Some r \<longrightarrow> r < length ps" by simp
  show ?thesis
    using scanOuter_bound [OF s i, of ps "\<lambda>i. [i + 1..<length ps]" r] a
    unfolding findRemoveIdx_def by simp
qed

function trimChild :: "nat \<Rightarrow> world \<Rightarrow> nat list \<Rightarrow> nat list" where
  "trimChild n w child =
     (if length child > n then
        (case findRemoveIdx (map (mem w) child) of
           Some removeIdx \<Rightarrow> trimChild n w (splice1 removeIdx child)
         | None \<Rightarrow> trimChild n w (butlast child))
      else child)"
  by pat_completeness auto
termination
proof (relation "measure (\<lambda>(n, w, child). length child)")
  show "wf (measure (\<lambda>(n, w, child). length child))" by simp
next
  fix n :: nat and w :: world and child :: "nat list" and r :: nat
  assume "n < length child" and "findRemoveIdx (map (mem w) child) = Some r"
  then have "r < length child" using findRemoveIdx_bound by fastforce
  then show "((n, w, splice1 r child), (n, w, child)) \<in> measure (\<lambda>(n, w, child). length child)"
    by (simp add: splice1_def)
next
  fix n :: nat and w :: world and child :: "nat list"
  assume "n < length child"
  then show "((n, w, butlast child), (n, w, child)) \<in> measure (\<lambda>(n, w, child). length child)"
    by (cases child) auto
qed

declare trimChild.simps [simp del]

definition crossover :: "nat \<Rightarrow> nat list \<Rightarrow> nat list \<Rightarrow> world \<Rightarrow> nat list \<times> world" where
  "crossover n parentA parentB w =
     (let (normal, w1) = randomPointOnSphere w;
          cw2 = fold (inheritPoint (\<lambda>p. dot p normal \<ge> 0)) parentA ([], w1);
          cw3 = fold (inheritPoint (\<lambda>p. dot p normal < 0)) parentB cw2;
          (child, w4) = padChild n cw3
      in (trimChild n w4 child, w4))"

text \<open>
  \<^verbatim>\<open>
  mutate(points) {
      if (Math.random() < mutationRate) {
          const idx = Math.floor(Math.random() * points.length);
          const perturbation = this.randomPointOnSphere().multiplyScalar(0.2);
          points[idx].add(perturbation).normalize();
      }
  }
  \<close>
  \<open>points[idx]\<close> is \<open>undefined\<close> for an index outside the array, and calling \<open>add\<close> on it
  throws.
\<close>

definition mutate :: "real \<Rightarrow> nat list \<Rightarrow> world \<Rightarrow> error + world" where
  "mutate mutationRate pts w =
     (let (r, w1) = random w
      in if r < mutationRate then
           (let (r2, w2) = random w1;
                idx = \<lfloor>r2 * real (length pts)\<rfloor>;
                (rp, w3) = randomPointOnSphere w2;
                perturbation = multiplyScalar rp (2 / 10)
            in if 0 \<le> idx \<and> idx < int (length pts) then
                 Inr (w3\<lparr>mem := (mem w3)(pts ! nat idx :=
                        normalize (add (mem w3 (pts ! nat idx)) perturbation))\<rparr>)
               else Inl TypeError)
         else Inr w1)"

subsection \<open>The population\<close>

text \<open>
  An individual is the object \<open>{ points, energy }\<close>. The simulation object has the fields
  \<open>n\<close>, \<open>populationSize\<close>, \<open>population\<close>, \<open>bestConfig\<close> (initially \<open>null\<close>) and
  \<open>bestEnergy\<close>. The globals \<open>learningRate\<close>, \<open>mutationRate\<close> and
  \<open>convergenceThreshold\<close>, which the page may change between two steps, are the record
  \<open>settings\<close>, a parameter of every method reading them.
\<close>

record individual =
  points :: "nat list"
  energy :: real

record simulation =
  sim_n :: nat
  populationSize :: nat
  population :: "individual list"
  bestConfig :: "nat list option"
  bestEnergy :: num

record settings =
  learningRate :: real
  mutationRate :: real
  convergenceThreshold :: real

text \<open>
  \<^verbatim>\<open>
  tournamentSelect() {
      const k = 3;
      let best = null;
      for (let i = 0; i < k; i++) {
          const ind = this.population[Math.floor(Math.random() * this.population.length)];
          if (!best || ind.energy < best.energy) { best = ind; }
      }
      return best;
  }
  \<close>
  \<open>ind\<close> is \<open>undefined\<close> (\<open>None\<close>) for an index outside the array; \<open>best\<close> is \<open>None\<close>
  while it is \<open>null\<close> or \<open>undefined\<close>, both falsy. \<open>ind.energy\<close> is read only when
  \<open>best\<close> is an object, and throws when \<open>ind\<close> is \<open>undefined\<close>.
\<close>

definition tournamentRound :: "individual list \<Rightarrow> individual option \<times> world \<Rightarrow> error + individual option \<times> world" where
  "tournamentRound pop bw =
     (let (best, w) = bw;
          (r, w1) = random w;
          idx = \<lfloor>r * real (length pop)\<rfloor>;
          ind = (if 0 \<le> idx \<and> idx < int (length pop) then Some (pop ! nat idx) else None)
      in case best of
           None \<Rightarrow> Inr (ind, w1)
         | Some b \<Rightarrow>
             (case ind of
                None \<Rightarrow> Inl TypeError
              | Some i \<Rightarrow> Inr (if energy i < energy b then Some i else Some b, w1)))"

definition tournamentSelect :: "individual list \<Rightarrow> world \<Rightarrow> error + individual option \<times> world" where
  "tournamentSelect pop w =
     bindE (tournamentRound pop (None, w)) (\<lambda>bw1.
     bindE (tournamentRound pop bw1) (\<lambda>bw2.
     tournamentRound pop bw2))"

text \<open>
  \<^verbatim>\<open>
  updateBest() {
      this.population.sort((a, b) => a.energy - b.energy);
      if (this.population[0].energy < this.bestEnergy) {
          this.bestEnergy = this.population[0].energy;
          this.bestConfig = this.population[0].points.map(p => p.clone());
      }
  }
  \<close>
  \<open>Array.prototype.sort\<close> is stable; with this comparator it sorts by ascending energy.
  \<open>population[0]\<close> is \<open>undefined\<close> for an empty population.
\<close>

definition clonePoint :: "nat \<Rightarrow> nat list \<times> world \<Rightarrow> nat list \<times> world" where
  "clonePoint p cw = (let (copy, w) = cw; (a, w') = alloc (mem w p) w in (copy @ [a], w'))"

definition clonePoints :: "nat list \<Rightarrow> world \<Rightarrow> nat list \<times> world" where
  "clonePoints pts w = fold clonePoint pts ([], w)"

definition updateBest :: "simulation \<Rightarrow> world \<Rightarrow> error + simulation \<times> world" where
  "updateBest s w =
     (let pop = sort_key energy (population s);
          s1 = s\<lparr>population := pop\<rparr>
      in case pop of
           [] \<Rightarrow> Inl TypeError
         | first # _ \<Rightarrow>
             if lessNum (energy first) (bestEnergy s1) then
               (let (copy, w') = clonePoints (points first) w
                in Inr (s1\<lparr>bestEnergy := Finite (energy first), bestConfig := Some copy\<rparr>, w'))
             else Inr (s1, w))"

text \<open>
  \<^verbatim>\<open>
  step() {
      const initialBestEnergy = this.bestEnergy;
      for (let ind of this.population) {
          this.gradientDescent(ind.points, learningRate);
          ind.energy = this.calculateEnergy(ind.points);
      }
      this.updateBest(); // Update best after GD
      const numToReplace = Math.floor(this.populationSize / 2);
      for (let i = 0; i < numToReplace; i++) {
          const p1 = this.tournamentSelect();
          const p2 = this.tournamentSelect();
          let childPoints = this.crossover(p1.points, p2.points);
          this.mutate(childPoints);
          this.gradientDescent(childPoints, learningRate * 5);
          const childEnergy = this.calculateEnergy(childPoints);
          const replaceIdx = this.populationSize - 1 - i;
          this.population[replaceIdx] = { points: childPoints, energy: childEnergy };
      }
      this.updateBest();
      return Math.abs(initialBestEnergy - this.bestEnergy);
  }
  \<close>
  The assignment to \<open>population[replaceIdx]\<close> is a list update: the constructor makes
  \<open>population.length = populationSize\<close> and no method changes either, so \<open>replaceIdx\<close>
  is an index of the array (the properties below carry this as the hypothesis
  \<open>length (population s) = populationSize s\<close>).
\<close>

definition refineIndividual :: "settings \<Rightarrow> individual \<Rightarrow> world \<Rightarrow> individual \<times> world" where
  "refineIndividual g ind w =
     (let w1 = gradientDescent (convergenceThreshold g) (points ind) (learningRate g) w
      in (ind\<lparr>energy := calculateEnergy (map (mem w1) (points ind))\<rparr>, w1))"

fun refineAll :: "settings \<Rightarrow> individual list \<Rightarrow> world \<Rightarrow> individual list \<times> world" where
  "refineAll g [] w = ([], w)"
| "refineAll g (ind # rest) w =
     (let (ind', w1) = refineIndividual g ind w;
          (rest', w2) = refineAll g rest w1
      in (ind' # rest', w2))"

definition pointsOf :: "individual option \<Rightarrow> error + nat list" where
  "pointsOf p = (case p of None \<Rightarrow> Inl TypeError | Some ind \<Rightarrow> Inr (points ind))"

definition recombine :: "settings \<Rightarrow> nat \<Rightarrow> simulation \<times> world \<Rightarrow> error + simulation \<times> world" where
  "recombine g i sw =
     (let (s, w) = sw
      in bindE (tournamentSelect (population s) w) (\<lambda>(p1, w1).
         bindE (tournamentSelect (population s) w1) (\<lambda>(p2, w2).
         bindE (pointsOf p1) (\<lambda>parentA.
         bindE (pointsOf p2) (\<lambda>parentB.
         (let (childPoints, w3) = crossover (sim_n s) parentA parentB w2
          in bindE (mutate (mutationRate g) childPoints w3) (\<lambda>w4.
             (let w5 = gradientDescent (convergenceThreshold g) childPoints (learningRate g * 5) w4;
                  childEnergy = calculateEnergy (map (mem w5) childPoints);
                  replaceIdx = populationSize s - 1 - i
              in Inr (s\<lparr>population := (population s)
                          [replaceIdx := \<lparr>points = childPoints, energy = childEnergy\<rparr>]\<rparr>, w5)))))))))"

fun recombineFrom :: "settings \<Rightarrow> nat list \<Rightarrow> simulation \<times> world \<Rightarrow> error + simulation \<times> world" where
  "recombineFrom g [] sw = Inr sw"
| "recombineFrom g (i # is) sw = bindE (recombine g i sw) (recombineFrom g is)"

definition step :: "settings \<Rightarrow> simulation \<Rightarrow> world \<Rightarrow> error + num \<times> simulation \<times> world" where
  "step g s w =
     (let initialBestEnergy = bestEnergy s;
          (pop1, w1) = refineAll g (population s) w
      in bindE (updateBest (s\<lparr>population := pop1\<rparr>) w1) (\<lambda>(s2, w2).
         (let numToReplace = populationSize s2 div 2
          in bindE (recombineFrom g [0..<numToReplace] (s2, w2)) (\<lambda>(s3, w3).
             bindE (updateBest s3 w3) (\<lambda>(s4, w4).
             Inr (absDiff initialBestEnergy (bestEnergy s4), s4, w4))))))"

text \<open>
  \<^verbatim>\<open>
  constructor(n) {
      this.n = n;
      this.populationSize = populationSize;
      this.population = [];
      this.bestConfig = null;
      this.bestEnergy = Infinity;
      this.initPopulation();
  }
  initPopulation() {
      this.population = [];
      for (let i = 0; i < this.populationSize; i++) {
          const config = this.createRandomConfig();
          this.gradientDescent(config, 0.1);
          const energy = this.calculateEnergy(config);
          this.population.push({ points: config, energy: energy });
      }
      this.updateBest();
  }
  createRandomConfig() {
      const points = [];
      for (let i = 0; i < this.n; i++) { points.push(this.randomPointOnSphere()); }
      return points;
  }
  \<close>
\<close>

definition pushRandomPoint :: "nat \<Rightarrow> nat list \<times> world \<Rightarrow> nat list \<times> world" where
  "pushRandomPoint i cw =
     (let (pts, w) = cw; (v, w1) = randomPointOnSphere w; (a, w2) = alloc v w1
      in (pts @ [a], w2))"

definition createRandomConfig :: "nat \<Rightarrow> world \<Rightarrow> nat list \<times> world" where
  "createRandomConfig n w = fold pushRandomPoint [0..<n] ([], w)"

definition pushIndividual :: "settings \<Rightarrow> nat \<Rightarrow> nat \<Rightarrow> individual list \<times> world \<Rightarrow> individual list \<times> world" where
  "pushIndividual g n i pw =
     (let (pop, w) = pw;
          (config, w1) = createRandomConfig n w;
          w2 = gradientDescent (convergenceThreshold g) config (1 / 10) w1;
          e = calculateEnergy (map (mem w2) config)
      in (pop @ [\<lparr>points = config, energy = e\<rparr>], w2))"

definition initPopulation :: "settings \<Rightarrow> simulation \<Rightarrow> world \<Rightarrow> error + simulation \<times> world" where
  "initPopulation g s w =
     (let (pop, w1) = fold (pushIndividual g (sim_n s)) [0..<populationSize s] ([], w)
      in updateBest (s\<lparr>population := pop\<rparr>) w1)"

text \<open>\<open>new ThomsonSimulation(n)\<close>; \<open>popSize\<close> is the global \<open>populationSize\<close>.\<close>

definition newSimulation :: "settings \<Rightarrow> nat \<Rightarrow> nat \<Rightarrow> world \<Rightarrow> error + simulation \<times> world" where
  "newSimulation g popSize n w =
     initPopulation g
       \<lparr>sim_n = n, populationSize = popSize, population = [], bestConfig = None,
        bestEnergy = Infinity\<rparr> w"

subsection \<open>The hull edge analyzer\<close>

text \<open>
  \<open>x.toFixed(f)\<close> of the runtime, for \<open>\<bar>x\<bar> < 1e21\<close> (beyond, JavaScript switches to
  the exponential notation, which is not modelled): the sign, then the integer nearest to
  \<open>\<bar>x\<bar> * 10^f\<close> (the larger one of two equally near), written in decimal with at least
  \<open>f + 1\<close> digits and a point before the last \<open>f\<close>.
\<close>

definition digitChar :: "nat \<Rightarrow> char" where
  "digitChar d = ''0123456789'' ! d"

fun digitsOf :: "nat \<Rightarrow> string" where
  "digitsOf n = (if n < 10 then [digitChar n] else digitsOf (n div 10) @ [digitChar (n mod 10)])"

declare digitsOf.simps [simp del]

definition toFixed :: "nat \<Rightarrow> real \<Rightarrow> string" where
  "toFixed f x =
     (let s = (if x < 0 then ''-'' else '''');
          n = nat \<lfloor>\<bar>x\<bar> * 10 ^ f + 1 / 2\<rfloor>;
          m = digitsOf n;
          m1 = (if length m \<le> f then replicate (f + 1 - length m) (CHR ''0'') @ m else m);
          k = length m1
      in if f = 0 then s @ m1 else s @ take (k - f) m1 @ ''.'' @ drop (k - f) m1)"

text \<open>
  \<^verbatim>\<open>
  function calculateEdgeGroups(points) {
      if (points.length < 4 || !THREE.ConvexGeometry) return [];
      const geometry = new THREE.ConvexGeometry(points);
      const vertices = geometry.attributes.position.array;
      const getVertexKey = (v) => `${v.x.toFixed(4)},${v.y.toFixed(4)},${v.z.toFixed(4)}`;
      const uniqueEdges = new Map();
      for (let i = 0; i < vertices.length; i += 9) {
          const v1 = new THREE.Vector3(vertices[i], vertices[i + 1], vertices[i + 2]);
          const v2 = new THREE.Vector3(vertices[i + 3], vertices[i + 4], vertices[i + 5]);
          const v3 = new THREE.Vector3(vertices[i + 6], vertices[i + 7], vertices[i + 8]);
          processEdge(v1, v2);
          processEdge(v2, v3);
          processEdge(v3, v1);
      }
      function processEdge(a, b) {
          const ka = getVertexKey(a);
          const kb = getVertexKey(b);
          if (ka === kb) return;
          const key = ka < kb ? `${ka}|${kb}` : `${kb}|${ka}`;
          if (!uniqueEdges.has(key)) {
              uniqueEdges.set(key, { start: a, end: b, len: a.distanceTo(b) });
          }
      }
      const edges = Array.from(uniqueEdges.values());
      const groups = [];
      const threshold = 1e-2;
      edges.forEach(edge => {
          let foundGroup = null;
          for (let g of groups) {
              if (Math.abs(g.len - edge.len) < threshold) { foundGroup = g; break; }
          }
          if (foundGroup) { foundGroup.edges.push(edge); }
          else { groups.push({ len: edge.len, edges: [edge] }); }
      });
      groups.sort((a, b) => a.len - b.len);
      return groups;
  }
  \<close>
  \<open>THREE.ConvexGeometry\<close> belongs to a library that the page may or may not have
  loaded: it is the parameter \<open>convexGeometry\<close>, \<open>None\<close> when it is missing, and otherwise the
  function from the points to the flat array of the coordinates of the triangles of
  their convex hull. A coordinate read past the end of that array is \<open>undefined\<close>, for
  which the constructor of \<open>Vector3\<close> takes its default 0. The \<open>Map\<close> is the list of its
  entries in the order of insertion, the order in which \<open>values()\<close> lists them. Strings
  compare by their characters' codes, the first difference deciding.
\<close>

record edge =
  start :: Vector3
  finish :: Vector3
  len :: real

record edgeGroup =
  len :: real
  edges :: "edge list"

definition coordAt :: "real list \<Rightarrow> nat \<Rightarrow> real" where
  "coordAt vertices k = (if k < length vertices then vertices ! k else 0)"

definition getVertexKey :: "Vector3 \<Rightarrow> string" where
  "getVertexKey v = toFixed 4 (vx v) @ '','' @ toFixed 4 (vy v) @ '','' @ toFixed 4 (vz v)"

definition mapHas :: "'k \<Rightarrow> ('k \<times> 'v) list \<Rightarrow> bool" where
  "mapHas k m = (k \<in> fst ` set m)"

definition edgeKey :: "string \<Rightarrow> string \<Rightarrow> string" where
  "edgeKey ka kb = (if ka < kb then ka @ ''|'' @ kb else kb @ ''|'' @ ka)"

definition processEdge :: "Vector3 \<Rightarrow> Vector3 \<Rightarrow> (string \<times> edge) list \<Rightarrow> (string \<times> edge) list" where
  "processEdge a b uniqueEdges =
     (let ka = getVertexKey a;
          kb = getVertexKey b
      in if ka = kb then uniqueEdges
         else (let key = edgeKey ka kb
               in if \<not> mapHas key uniqueEdges then
                    uniqueEdges @ [(key, \<lparr>start = a, finish = b, len = distanceTo a b\<rparr>)]
                  else uniqueEdges))"

definition processTriangle :: "real list \<Rightarrow> nat \<Rightarrow> (string \<times> edge) list \<Rightarrow> (string \<times> edge) list" where
  "processTriangle vertices i uniqueEdges =
     (let v1 = Vector3 (coordAt vertices i) (coordAt vertices (i + 1)) (coordAt vertices (i + 2));
          v2 = Vector3 (coordAt vertices (i + 3)) (coordAt vertices (i + 4)) (coordAt vertices (i + 5));
          v3 = Vector3 (coordAt vertices (i + 6)) (coordAt vertices (i + 7)) (coordAt vertices (i + 8))
      in processEdge v3 v1 (processEdge v2 v3 (processEdge v1 v2 uniqueEdges)))"

text \<open>The values of \<open>i\<close> in \<open>for (let i = 0; i < vertices.length; i += 9)\<close>.\<close>

definition triangleStarts :: "real list \<Rightarrow> nat list" where
  "triangleStarts vertices = map (\<lambda>k. 9 * k) [0..<(length vertices + 8) div 9]"

definition collectEdges :: "real list \<Rightarrow> (string \<times> edge) list" where
  "collectEdges vertices = fold (processTriangle vertices) (triangleStarts vertices) []"

text \<open>The \<open>for ... of\<close> with its \<open>break\<close>: the index of the first group that fits.\<close>

fun findGroup :: "real \<Rightarrow> edgeGroup list \<Rightarrow> nat option" where
  "findGroup l [] = None"
| "findGroup l (g # gs) =
     (if \<bar>edgeGroup.len g - l\<bar> < 1 / 100 then Some 0
      else map_option Suc (findGroup l gs))"

definition placeEdge :: "edge \<Rightarrow> edgeGroup list \<Rightarrow> edgeGroup list" where
  "placeEdge e groups =
     (case findGroup (edge.len e) groups of
        Some k \<Rightarrow> groups[k := (groups ! k)\<lparr>edges := edges (groups ! k) @ [e]\<rparr>]
      | None \<Rightarrow> groups @ [\<lparr>len = edge.len e, edges = [e]\<rparr>])"

definition calculateEdgeGroups :: "(Vector3 list \<Rightarrow> real list) option \<Rightarrow> Vector3 list \<Rightarrow> edgeGroup list" where
  "calculateEdgeGroups convexGeometry ps =
     (if length ps < 4 \<or> convexGeometry = None then []
      else (let vertices = the convexGeometry ps;
                es = map snd (collectEdges vertices);
                groups = fold placeEdge es []
            in sort_key edgeGroup.len groups))"

subsection \<open>Notions used to state the properties\<close>

text \<open>
  The number of iterations a call of \<open>gradientDescent\<close> runs (the final value of
  \<open>iter\<close>), and the energy that the loop evaluates after its \<open>k\<close>-th iteration
  (\<open>energyAfter ... 0\<close> is the evaluation before the loop).
\<close>

definition gdIterations :: "real \<Rightarrow> nat list \<Rightarrow> real \<Rightarrow> world \<Rightarrow> nat" where
  "gdIterations thr pts lr w =
     snd (snd (snd (gdLoop thr pts lr (w, Infinity, calculateEnergy (map (mem w) pts), 0))))"

definition energyAfter :: "nat list \<Rightarrow> real \<Rightarrow> world \<Rightarrow> nat \<Rightarrow> real" where
  "energyAfter pts lr w k = calculateEnergy (map (mem ((gdIteration pts lr ^^ k) w)) pts)"

text \<open>What the second loop of an iteration writes to one point, given its force.\<close>

definition movedPoint :: "Vector3 \<Rightarrow> Vector3 \<Rightarrow> real \<Rightarrow> Vector3" where
  "movedPoint p f lr = normalize (addScaledVector p (sub f (multiplyScalar p (dot f p))) lr)"

text \<open>
  The words of the specification for \<open>crossover\<close>. \<open>closestPairLower ps i\<close>: \<open>i\<close> is
  the lower index of a pair of points of \<open>ps\<close> at the smallest distance of all pairs.
  \<open>trimmed n w c c'\<close>: \<open>c'\<close> comes from \<open>c\<close> by removing such a point again and again
  until at most \<open>n\<close> are left (a single point, which has no pair, is removed as it is:
  this happens for \<open>n = 0\<close> only). \<open>inherited\<close>: the points of parent A on the side of
  the normal, then those of parent B on the other side.
\<close>

definition closestPairLower :: "Vector3 list \<Rightarrow> nat \<Rightarrow> bool" where
  "closestPairLower ps i =
     (\<exists>j. i < j \<and> j < length ps \<and>
        (\<forall>i' j'. i' < j' \<and> j' < length ps \<longrightarrow>
           distanceTo (ps ! i) (ps ! j) \<le> distanceTo (ps ! i') (ps ! j')))"

inductive trimmed :: "nat \<Rightarrow> world \<Rightarrow> nat list \<Rightarrow> nat list \<Rightarrow> bool" where
  enough: "length c \<le> n \<Longrightarrow> trimmed n w c c"
| remove: "n < length c \<Longrightarrow> closestPairLower (map (mem w) c) i
            \<Longrightarrow> trimmed n w (splice1 i c) c' \<Longrightarrow> trimmed n w c c'"
| single: "n < length c \<Longrightarrow> length c < 2 \<Longrightarrow> trimmed n w (butlast c) c' \<Longrightarrow> trimmed n w c c'"

definition inherited :: "Vector3 \<Rightarrow> world \<Rightarrow> nat list \<Rightarrow> nat list \<Rightarrow> nat list" where
  "inherited normal w parentA parentB =
     filter (\<lambda>p. dot (mem w p) normal \<ge> 0) parentA @ filter (\<lambda>p. dot (mem w p) normal < 0) parentB"

text \<open>The pairs of indices in the order in which the two nested loops visit them.\<close>

definition pairsOf :: "nat \<Rightarrow> (nat \<times> nat) list" where
  "pairsOf n = concat (map (\<lambda>i. map (Pair i) [i + 1..<n]) [0..<n])"

text \<open>Every point of a configuration is on the unit sphere.\<close>

definition unitConfig :: "world \<Rightarrow> nat list \<Rightarrow> bool" where
  "unitConfig w pts = (\<forall>a \<in> set pts. vlength (mem w a) = 1)"

text \<open>
  The words of the specification for the hull edge analyzer. \<open>triangleAt\<close>: the three
  edges of the triangle that starts at index \<open>i\<close> of the array; \<open>keyedEdges\<close>: the edges
  of all triangles in the order of discovery, without those whose two ends have the same
  key, each with its canonical key; \<open>addIfNew\<close>: what \<open>processEdge\<close> does to the
  \<open>Map\<close> with such an edge; \<open>fits\<close>: the length is within the tolerance of the
  representative length of the group (the comparison is strict); \<open>groupsWellFormed\<close>:
  every group has edges, its length is the length of its first edge, all its edges fit
  it, and no group fits the representative of a group made before it;
  \<open>roundedCoordinate\<close>: a coordinate rounded to 4 decimal places, as its sign and the
  nearest integer to its absolute value times \<open>10^4\<close>.
\<close>

definition triangleAt :: "real list \<Rightarrow> nat \<Rightarrow> (Vector3 \<times> Vector3) list" where
  "triangleAt vertices i =
     (let v1 = Vector3 (coordAt vertices i) (coordAt vertices (i + 1)) (coordAt vertices (i + 2));
          v2 = Vector3 (coordAt vertices (i + 3)) (coordAt vertices (i + 4)) (coordAt vertices (i + 5));
          v3 = Vector3 (coordAt vertices (i + 6)) (coordAt vertices (i + 7)) (coordAt vertices (i + 8))
      in [(v1, v2), (v2, v3), (v3, v1)])"

definition keyedEdge :: "Vector3 \<times> Vector3 \<Rightarrow> string \<times> edge" where
  "keyedEdge ab =
     (edgeKey (getVertexKey (fst ab)) (getVertexKey (snd ab)),
      \<lparr>start = fst ab, finish = snd ab, len = distanceTo (fst ab) (snd ab)\<rparr>)"

definition keyedEdges :: "real list \<Rightarrow> (string \<times> edge) list" where
  "keyedEdges vertices =
     map keyedEdge
       (filter (\<lambda>ab. getVertexKey (fst ab) \<noteq> getVertexKey (snd ab))
          (concat (map (triangleAt vertices) (triangleStarts vertices))))"

definition addIfNew :: "'k \<times> 'v \<Rightarrow> ('k \<times> 'v) list \<Rightarrow> ('k \<times> 'v) list" where
  "addIfNew kv m = (if mapHas (fst kv) m then m else m @ [kv])"

definition fits :: "real \<Rightarrow> edgeGroup \<Rightarrow> bool" where
  "fits l g = (\<bar>edgeGroup.len g - l\<bar> < 1 / 100)"

definition groupsWellFormed :: "edgeGroup list \<Rightarrow> bool" where
  "groupsWellFormed gs =
     ((\<forall>g \<in> set gs. edges g \<noteq> [] \<and> edgeGroup.len g = edge.len (hd (edges g))
          \<and> (\<forall>e \<in> set (edges g). \<bar>edgeGroup.len g - edge.len e\<bar> < 1 / 100))
      \<and> (\<forall>j < length gs. \<forall>i < j. \<not> \<bar>edgeGroup.len (gs ! i) - edgeGroup.len (gs ! j)\<bar> < 1 / 100))"

definition roundedCoordinate :: "real \<Rightarrow> bool \<times> int" where
  "roundedCoordinate x = (x < 0, \<lfloor>\<bar>x\<bar> * 10 ^ 4 + 1 / 2\<rfloor>)"

text \<open>
  The number that a string of decimal digits denotes, and the characters that are
  digits: with them the digits of \<open>toFixed\<close> are read back.
\<close>

definition digitValue :: "char \<Rightarrow> nat" where
  "digitValue c = of_char c - 48"

definition digitsValue :: "string \<Rightarrow> nat" where
  "digitsValue ds = foldl (\<lambda>a c. 10 * a + digitValue c) 0 ds"

definition keyChars :: "char set" where
  "keyChars = set ''0123456789''"

text \<open>
  The words of the specification for the best record and the recombination pass.
  \<open>rngOk\<close>: every value that \<open>Math.random\<close> is going to yield is in \<open>[0, 1)\<close>.
  \<open>popAddrs\<close>: the addresses of the points of the individuals of a population.
  \<open>simInv\<close>: the state of a simulation between two calls of its methods: at least one
  point per configuration, \<open>populationSize\<close> individuals in the population, at least
  one, their points allocated, the recorded best configuration, when there is one,
  allocated and sharing no point with an individual, the recorded best energy a number
  or \<open>Infinity\<close>, and \<open>rngOk\<close>. \<open>numLe a b\<close>: \<open>a <= b\<close> on numbers that may be infinite.
  \<open>lowered new old\<close>: the new value is the old one or a number below it. \<open>steps\<close>: one
  call of \<open>step\<close> after the other, each with the settings that the page has at that
  moment.
\<close>

definition rngOk :: "world \<Rightarrow> bool" where
  "rngOk w = (\<forall>x \<in> sset (rnd w). 0 \<le> x \<and> x < 1)"

definition popAddrs :: "individual list \<Rightarrow> nat set" where
  "popAddrs pop = (\<Union>ind \<in> set pop. set (points ind))"

definition simInv :: "simulation \<Rightarrow> world \<Rightarrow> bool" where
  "simInv s w =
     (1 \<le> sim_n s \<and> 1 \<le> populationSize s \<and> populationSize s = length (population s)
      \<and> popAddrs (population s) \<subseteq> {..<nextAddr w}
      \<and> (\<forall>c. bestConfig s = Some c \<longrightarrow>
             set c \<subseteq> {..<nextAddr w} \<and> set c \<inter> popAddrs (population s) = {})
      \<and> bestEnergy s \<noteq> NaN \<and> rngOk w)"

fun numLe :: "num \<Rightarrow> num \<Rightarrow> bool" where
  "numLe (Finite a) (Finite b) = (a \<le> b)"
| "numLe (Finite a) Infinity = True"
| "numLe Infinity Infinity = True"
| "numLe Infinity (Finite b) = False"
| "numLe NaN b = False"
| "numLe a NaN = False"

fun steps :: "settings list \<Rightarrow> simulation \<times> world \<Rightarrow> error + simulation \<times> world" where
  "steps [] sw = Inr sw"
| "steps (g # gs) sw = bindE (step g (fst sw) (snd sw)) (\<lambda>(d, s', w'). steps gs (s', w'))"

fun lowered :: "num \<Rightarrow> num \<Rightarrow> bool" where
  "lowered (Finite e) old = (old = Finite e \<or> lessNum e old)"
| "lowered Infinity old = (old = Infinity)"
| "lowered NaN old = (old = NaN)"

subsection \<open>Example states\<close>

text \<open>
  Two points on the equator, \<open>(3/5, -4/5, 0)\<close> and \<open>(3/5, 4/5, 0)\<close>, at the addresses 0
  and 1; with the learning rate \<open>16/5\<close> one iteration moves them to the poles of the
  axis between them, \<open>(0, -1, 0)\<close> and \<open>(0, 1, 0)\<close>, where they stay.
\<close>

definition twoPoints :: world where
  "twoPoints = \<lparr>mem = (\<lambda>_. zeroVector)(0 := Vector3 (3/5) (-4/5) 0, 1 := Vector3 (3/5) (4/5) 0),
                nextAddr = 2, rnd = sconst 0\<rparr>"

definition twoPointsApart :: world where
  "twoPointsApart = twoPoints\<lparr>mem := (mem twoPoints)(0 := Vector3 0 (-1) 0, 1 := Vector3 0 1 0)\<rparr>"

text \<open>
  Two points \<open>(5/13, -12/13, 0)\<close> and \<open>(5/13, 12/13, 0)\<close> with the learning rate
  \<open>768/65\<close>: the first iteration throws them past the poles to
  \<open>(-33/65, -56/65, 0)\<close> and \<open>(-33/65, 56/65, 0)\<close>, closer to each other than they
  were, and the second iteration brings them closer again.
\<close>

definition overshoot :: world where
  "overshoot = \<lparr>mem = (\<lambda>_. zeroVector)(0 := Vector3 (5/13) (-12/13) 0, 1 := Vector3 (5/13) (12/13) 0),
                nextAddr = 2, rnd = sconst 0\<rparr>"

definition overshoot1 :: world where
  "overshoot1 = overshoot\<lparr>mem := (mem overshoot)(0 := Vector3 (-33/65) (-56/65) 0, 1 := Vector3 (-33/65) (56/65) 0)\<rparr>"

definition overshoot2 :: world where
  "overshoot2 = overshoot\<lparr>mem := (mem overshoot)
      (0 := multiplyScalar (Vector3 (561/455) (-6011/3185) 0) (1 / sqrt (12202/2401)),
       1 := multiplyScalar (Vector3 (561/455) (6011/3185) 0) (1 / sqrt (12202/2401)))\<rparr>"

text \<open>
  Two parents of one point each, \<open>(1, 0, 0)\<close> at address 0 and \<open>(-1, 0, 0)\<close> at
  address 1, and a random source that makes the normal \<open>(1, 0, 0)\<close>: the child gets a
  copy of both points, at the addresses 2 and 3, and loses the first.
\<close>

definition facing :: world where
  "facing = \<lparr>mem = (\<lambda>_. zeroVector)(0 := Vector3 1 0 0, 1 := Vector3 (-1) 0 0),
             nextAddr = 2, rnd = 0 ## sconst (1 / 2)\<rparr>"

definition facingCrossed :: world where
  "facingCrossed = \<lparr>mem = (\<lambda>_. zeroVector)(0 := Vector3 1 0 0, 1 := Vector3 (-1) 0 0,
                             2 := Vector3 1 0 0, 3 := Vector3 (-1) 0 0),
                    nextAddr = 4, rnd = sconst (1 / 2)\<rparr>"

text \<open>
  One point \<open>(1, 0, 0)\<close> and a random source with which \<open>mutate\<close>, at the rate
  \<open>1/5\<close>, displaces it by \<open>0.2 * (1, 0, 0)\<close>.
\<close>

definition mutating :: world where
  "mutating = \<lparr>mem = (\<lambda>_. zeroVector)(0 := Vector3 1 0 0), nextAddr = 1,
               rnd = 0 ## 0 ## 0 ## sconst (1 / 2)\<rparr>"

text \<open>
  A hull of two triangles over the corners of a 3 by 4 rectangle, sharing the diagonal:
  five different edges of the lengths 3, 4, 5, 3 and 4.
\<close>

definition rectangleHull :: "Vector3 list \<Rightarrow> real list" where
  "rectangleHull ps = [0, 0, 0, 3, 0, 0, 3, 4, 0,  0, 0, 0, 3, 4, 0, 0, 4, 0]"

definition cornerA :: Vector3 where "cornerA = Vector3 0 0 0"

definition cornerB :: Vector3 where "cornerB = Vector3 3 0 0"

definition cornerC :: Vector3 where "cornerC = Vector3 3 4 0"

definition cornerD :: Vector3 where "cornerD = Vector3 0 4 0"

definition rectangle :: "Vector3 list" where
  "rectangle = [cornerA, cornerB, cornerC, cornerD]"

definition edgeAB :: edge where "edgeAB = \<lparr>start = cornerA, finish = cornerB, len = 3\<rparr>"

definition edgeBC :: edge where "edgeBC = \<lparr>start = cornerB, finish = cornerC, len = 4\<rparr>"

definition edgeCA :: edge where "edgeCA = \<lparr>start = cornerC, finish = cornerA, len = 5\<rparr>"

definition edgeAC :: edge where "edgeAC = \<lparr>start = cornerA, finish = cornerC, len = 5\<rparr>"

definition edgeCD :: edge where "edgeCD = \<lparr>start = cornerC, finish = cornerD, len = 3\<rparr>"

definition edgeDA :: edge where "edgeDA = \<lparr>start = cornerD, finish = cornerA, len = 4\<rparr>"



definition pageSettings :: settings where
  "pageSettings = \<lparr>learningRate = 1 / 100, mutationRate = 1 / 5,
                    convergenceThreshold = 1 / 10 ^ 8\<rparr>"



definition duo :: world where
  "duo = \<lparr>mem = (\<lambda>_. zeroVector)(0 := Vector3 1 0 0, 1 := Vector3 1 0 0),
          nextAddr = 2,
          rnd = shift [3/4, 3/4, 3/4, 3/4, 3/4, 3/4, 0, 1/2, 1/2] (sconst (3/4))\<rparr>"

definition duoRecorded :: world where
  "duoRecorded = \<lparr>mem = (\<lambda>_. zeroVector)(0 := Vector3 1 0 0, 1 := Vector3 1 0 0,
                     2 := Vector3 1 0 0),
          nextAddr = 3,
          rnd = shift [3/4, 3/4, 3/4, 3/4, 3/4, 3/4, 0, 1/2, 1/2] (sconst (3/4))\<rparr>"

definition duoNext :: world where
  "duoNext = \<lparr>mem = (\<lambda>_. zeroVector)(0 := Vector3 1 0 0, 1 := Vector3 1 0 0,
                     2 := Vector3 1 0 0, 3 := Vector3 1 0 0),
          nextAddr = 4, rnd = sconst (3/4)\<rparr>"

definition duoSim :: simulation where
  "duoSim = \<lparr>sim_n = 1, populationSize = 2,
       population = [\<lparr>points = [0], energy = 0\<rparr>, \<lparr>points = [1], energy = 0\<rparr>],
       bestConfig = None, bestEnergy = Infinity\<rparr>"

definition duoSimRecorded :: simulation where
  "duoSimRecorded = \<lparr>sim_n = 1, populationSize = 2,
       population = [\<lparr>points = [0], energy = 0\<rparr>, \<lparr>points = [1], energy = 0\<rparr>],
       bestConfig = Some [2], bestEnergy = Finite 0\<rparr>"

definition duoSimNext :: simulation where
  "duoSimNext = \<lparr>sim_n = 1, populationSize = 2,
       population = [\<lparr>points = [0], energy = 0\<rparr>, \<lparr>points = [3], energy = 0\<rparr>],
       bestConfig = Some [2], bestEnergy = Finite 0\<rparr>"

section \<open>Properties\<close>

subsection \<open>The energy model\<close>

lemma energyPair_pairTerm:
  "energyPair ps i j e = e + pairTerm (ps ! i) (ps ! j)"
  by (simp add: energyPair_def pairTerm_def Let_def not_le)

lemma fold_add_upt:
  fixes f :: "nat \<Rightarrow> real"
  shows "fold (\<lambda>j e. e + f j) [a..<b] e0 = e0 + (\<Sum>j = a..<b. f j)"
proof (induction b arbitrary: e0)
  case 0
  then show ?case by simp
next
  case (Suc b)
  show ?case
  proof (cases "a \<le> b")
    case True
    then show ?thesis using Suc by (simp add: algebra_simps)
  next
    case False
    then show ?thesis by simp
  qed
qed

lemma calculateEnergy_sum:
  "calculateEnergy ps = (\<Sum>i = 0..<length ps. \<Sum>j = Suc i..<length ps. pairTerm (ps ! i) (ps ! j))"
proof -
  have inner: "\<And>i e. fold (\<lambda>j e. energyPair ps i j e) [i + 1..<length ps] e
      = e + (\<Sum>j = Suc i..<length ps. pairTerm (ps ! i) (ps ! j))"
    by (simp add: energyPair_pairTerm fold_add_upt)
  show ?thesis
    unfolding calculateEnergy_def inner
    by (simp add: fold_add_upt)
qed

text \<open>
  C1. For every sequence of points the energy is the sum, over the pairs of indices
  \<open>i < j\<close>, of the inverse distance of the two points, a pair at distance at most \<open>1e-9\<close>
  counting \<open>1e9\<close> instead. It is 0 for no point and for one point; for two points it is
  the term of the one pair, which is \<open>1 / distance\<close> when the two are more than \<open>1e-9\<close>
  apart.
\<close>

theorem calculateEnergy_pairs:
  "calculateEnergy ps
     = (\<Sum>i = 0..<length ps. \<Sum>j = Suc i..<length ps.
          (if distanceTo (ps ! i) (ps ! j) \<le> 1 / 10 ^ 9 then 10 ^ 9
           else 1 / distanceTo (ps ! i) (ps ! j)))
   \<and> calculateEnergy [] = 0
   \<and> calculateEnergy [p] = 0
   \<and> calculateEnergy [p, q] = (if distanceTo p q \<le> 1 / 10 ^ 9 then 10 ^ 9 else 1 / distanceTo p q)
   \<and> (1 / 10 ^ 9 < distanceTo p q \<longrightarrow> calculateEnergy [p, q] = 1 / distanceTo p q)"
proof -
  have two: "calculateEnergy [p, q] = pairTerm p q"
    by (simp add: calculateEnergy_sum)
  show ?thesis
    using two by (simp add: calculateEnergy_sum pairTerm_def)
qed

theorem calculateEnergy_pairs_witness:
  "1 / 10 ^ 9 < distanceTo (Vector3 1 0 0) (Vector3 (-1) 0 0)
   \<and> calculateEnergy [Vector3 1 0 0, Vector3 (-1) 0 0] = 1 / 2"
proof -
  have d: "distanceTo (Vector3 1 0 0) (Vector3 (-1) 0 0) = 2"
    by (simp add: distanceTo_def distanceToSquared_def)
  have h: "1 / 10 ^ 9 < distanceTo (Vector3 1 0 0) (Vector3 (-1) 0 0)"
    by (simp add: d)
  show ?thesis
    using calculateEnergy_pairs [of "[]" "Vector3 1 0 0" "Vector3 (-1) 0 0"] h d by simp
qed

subsection \<open>The loop of the local optimizer\<close>

lemma movePoint_movedPoint:
  "movePoint pts forces lr i w = w\<lparr>mem := (mem w)(pts ! i := movedPoint (mem w (pts ! i)) (forces ! i) lr)\<rparr>"
  by (simp add: movePoint_def movedPoint_def Let_def)

lemma computeForces_two:
  "computeForces [p, q] =
     (let diff = subVectors p q; distSq = lengthSq diff; dist = sqrt distSq
      in if dist > 1 / 10 ^ 9
         then [multiplyScalar diff (1 / (distSq * dist)),
               sub zeroVector (multiplyScalar diff (1 / (distSq * dist)))]
         else [zeroVector, zeroVector])"
  by (simp add: computeForces_def applyForce_def Let_def upt_rec add_def zeroVector_def
      multiplyScalar_def numeral_2_eq_2)

lemma gdIteration_two:
  assumes "a0 \<noteq> a1"
  shows "gdIteration [a0, a1] lr w =
     (let forces = computeForces [mem w a0, mem w a1]
      in w\<lparr>mem := (mem w)(a0 := movedPoint (mem w a0) (forces ! 0) lr,
                           a1 := movedPoint (mem w a1) (forces ! 1) lr)\<rparr>)"
  using assms
  by (simp add: gdIteration_def movePoint_movedPoint Let_def upt_rec numeral_2_eq_2)

lemma sqrt_rat: "0 \<le> y \<Longrightarrow> y * y = x \<Longrightarrow> sqrt x = (y::real)"
  by (metis real_sqrt_abs2 abs_of_nonneg)

lemma sqrt_64_25: "sqrt (64/25) = 8/5" by (rule sqrt_rat) simp_all
lemma sqrt_25_16: "sqrt (25/16) = 5/4" by (rule sqrt_rat) simp_all

lemma twoPoints_step_value: "gdIteration [0, 1] (16/5) twoPoints
   = twoPoints\<lparr>mem := (mem twoPoints)(0 := Vector3 0 (-1) 0, 1 := Vector3 0 1 0)\<rparr>"
  by (simp add: gdIteration_two twoPoints_def computeForces_two subVectors_def zeroVector_def
      Let_def movedPoint_def normalize_def
      addScaledVector_def sub_def multiplyScalar_def dot_def vlength_def lengthSq_def
      divideScalar_def sqrt_64_25 sqrt_25_16)

lemma energyAfter_shift:
  "energyAfter pts lr (gdIteration pts lr w) k = energyAfter pts lr w (Suc k)"
  by (simp add: energyAfter_def funpow_swap1)

lemma energyAfter_0: "calculateEnergy (map (mem w) pts) = energyAfter pts lr w 0"
  by (simp add: energyAfter_def)

lemma funpow_twice: "(f ^^ 2) x = f (f x)"
  by (simp add: numeral_2_eq_2)

lemma gdLoop_run:
  "gdLoop thr pts lr (w, d, e, i) = (w', d', e', k) \<Longrightarrow> e = energyAfter pts lr w 0 \<Longrightarrow>
   i \<le> k \<and> w' = (gdIteration pts lr ^^ (k - i)) w \<and> e' = energyAfter pts lr w (k - i)
   \<and> (i \<le> maxIter \<longrightarrow> k \<le> maxIter)
   \<and> \<not> (numGreater d' thr \<and> k < maxIter)
   \<and> (i = k \<longrightarrow> d' = d)
   \<and> (i < k \<longrightarrow> numGreater d thr
        \<and> d' = Finite \<bar>energyAfter pts lr w (k - i - 1) - energyAfter pts lr w (k - i)\<bar>
        \<and> (\<forall>j. 1 \<le> j \<and> j < k - i \<longrightarrow>
              thr < \<bar>energyAfter pts lr w (j - 1) - energyAfter pts lr w j\<bar>))"
proof (induction thr pts lr "(w, d, e, i)" arbitrary: w d e i rule: gdLoop.induct)
  case (1 thr pts lr w d e i)
  show ?case
  proof (cases "numGreater d thr \<and> i < maxIter")
    case False
    then have "gdLoop thr pts lr (w, d, e, i) = (w, d, e, i)" by (subst gdLoop.simps) auto
    with 1(2) have "w' = w" "d' = d" "e' = e" "k = i" by simp_all
    then show ?thesis using False 1(3) by auto
  next
    case True
    define w1 where "w1 = gdIteration pts lr w"
    define e1 where "e1 = calculateEnergy (map (mem w1) pts)"
    have e1: "e1 = energyAfter pts lr w1 0" by (simp add: e1_def energyAfter_def)
    have call: "gdLoop thr pts lr (w1, Finite \<bar>e - e1\<bar>, e1, i + 1) = (w', d', e', k)"
      using True 1(2) by (subst (asm) gdLoop.simps) (simp add: w1_def e1_def Let_def)
    note IH = 1(1) [OF True w1_def e1_def call e1]
    have sh: "\<And>m. energyAfter pts lr w1 m = energyAfter pts lr w (Suc m)"
      by (simp add: w1_def energyAfter_shift)
    have e10: "e1 = energyAfter pts lr w (Suc 0)" using e1 sh by simp
    from IH have ik: "i + 1 \<le> k" by simp
    then have kd: "k - i = Suc (k - (i + 1))" by simp
    have "w' = (gdIteration pts lr ^^ (k - (i + 1))) w1" using IH by simp
    also have "\<dots> = (gdIteration pts lr ^^ Suc (k - (i + 1))) w"
      by (simp add: w1_def funpow_swap1)
    finally have A: "w' = (gdIteration pts lr ^^ (k - i)) w" using kd by simp
    have B: "e' = energyAfter pts lr w (k - i)"
      using IH by (simp add: kd sh)
    have C: "i \<le> maxIter \<longrightarrow> k \<le> maxIter" using IH True by simp
    have D: "\<not> (numGreater d' thr \<and> k < maxIter)" using IH by simp
    have E: "d' = Finite \<bar>energyAfter pts lr w (k - i - 1) - energyAfter pts lr w (k - i)\<bar>"
    proof (cases "i + 1 = k")
      case True
      then have "d' = Finite \<bar>e - e1\<bar>" using IH by simp
      moreover have "k - i = Suc 0" "k - i - 1 = 0" using True by auto
      ultimately show ?thesis using e10 1(3) by simp
    next
      case False
      then have lt: "i + 1 < k" using ik by simp
      then have "d' = Finite \<bar>energyAfter pts lr w1 (k - (i + 1) - 1) - energyAfter pts lr w1 (k - (i + 1))\<bar>"
        using IH by simp
      moreover have "Suc (k - (i + 1) - 1) = k - i - 1" using lt by simp
      moreover have "Suc (k - (i + 1)) = k - i" using lt by simp
      ultimately show ?thesis by (simp add: sh)
    qed
    have F: "\<forall>j. 1 \<le> j \<and> j < k - i \<longrightarrow>
              thr < \<bar>energyAfter pts lr w (j - 1) - energyAfter pts lr w j\<bar>"
    proof (intro allI impI)
      fix j assume j: "1 \<le> j \<and> j < k - i"
      show "thr < \<bar>energyAfter pts lr w (j - 1) - energyAfter pts lr w j\<bar>"
      proof (cases "j = 1")
        case True
        then have "i + 1 < k" using j by simp
        then have "numGreater (Finite \<bar>e - e1\<bar>) thr" using IH by simp
        then show ?thesis using True e10 1(3) by simp
      next
        case False
        then have j2: "1 \<le> j - 1 \<and> j - 1 < k - (i + 1)" using j by auto
        then have lt: "i + 1 < k" by linarith
        have "thr < \<bar>energyAfter pts lr w1 (j - 1 - 1) - energyAfter pts lr w1 (j - 1)\<bar>"
          using IH lt j2 by blast
        moreover have "Suc (j - 1 - 1) = j - 1" "Suc (j - 1) = j" using j2 by linarith+
        ultimately show ?thesis by (simp add: sh)
      qed
    qed
    show ?thesis using ik A B C D E F True by auto
  qed
qed


lemma gdIterations_run:
  "gdIterations thr pts lr w \<le> maxIter
   \<and> 1 \<le> gdIterations thr pts lr w
   \<and> gradientDescent thr pts lr w = (gdIteration pts lr ^^ gdIterations thr pts lr w) w
   \<and> (gdIterations thr pts lr w < maxIter \<longrightarrow>
        \<bar>energyAfter pts lr w (gdIterations thr pts lr w - 1)
          - energyAfter pts lr w (gdIterations thr pts lr w)\<bar> \<le> thr)
   \<and> (\<forall>j. 1 \<le> j \<and> j < gdIterations thr pts lr w \<longrightarrow>
          thr < \<bar>energyAfter pts lr w (j - 1) - energyAfter pts lr w j\<bar>)"
proof -
  obtain w' d' e' k where r:
    "gdLoop thr pts lr (w, Infinity, calculateEnergy (map (mem w) pts), 0) = (w', d', e', k)"
    by (metis prod_cases4)
  have k: "gdIterations thr pts lr w = k" by (simp add: gdIterations_def r)
  have g: "gradientDescent thr pts lr w = w'" by (simp add: gradientDescent_def r)
  have e0: "calculateEnergy (map (mem w) pts) = energyAfter pts lr w 0"
    by (simp add: energyAfter_def)
  note R = gdLoop_run [OF r e0]
  have pos: "0 < k"
  proof (rule ccontr)
    assume "\<not> 0 < k"
    then have "k = 0" by simp
    then have "d' = Infinity" using R by simp
    then show False using R \<open>k = 0\<close> by (auto simp: maxIter_def)
  qed
  then have d': "d' = Finite \<bar>energyAfter pts lr w (k - 1) - energyAfter pts lr w k\<bar>"
    using R by simp
  have fin: "k < maxIter \<longrightarrow> \<bar>energyAfter pts lr w (k - 1) - energyAfter pts lr w k\<bar> \<le> thr"
    using R d' by auto
  show ?thesis
    unfolding k g using R pos fin by auto
qed

text \<open>
  C9. Every call of the local optimizer returns: the loop runs \<open>gdIterations\<close> times,
  at least once and at most 10000 times, and the call leaves the store in the state
  reached after that many iterations, whether the loop ended by the threshold or by the
  cap (the result is a store, there is no error). It stops at the first iteration after
  which the absolute change of the energy is not above the threshold: before the cap the
  last change is at most the threshold, and every earlier change is above it.
\<close>

theorem gradientDescent_terminates:
  "gdIterations thr pts lr w \<le> 10000
   \<and> 1 \<le> gdIterations thr pts lr w
   \<and> gradientDescent thr pts lr w = (gdIteration pts lr ^^ gdIterations thr pts lr w) w
   \<and> (gdIterations thr pts lr w < 10000 \<longrightarrow>
        \<bar>energyAfter pts lr w (gdIterations thr pts lr w - 1)
          - energyAfter pts lr w (gdIterations thr pts lr w)\<bar> \<le> thr)
   \<and> (\<forall>j. 1 \<le> j \<and> j < gdIterations thr pts lr w \<longrightarrow>
          thr < \<bar>energyAfter pts lr w (j - 1) - energyAfter pts lr w j\<bar>)"
  using gdIterations_run [of thr pts lr w] by (simp add: maxIter_def)

lemma twoPoints_energy: "calculateEnergy (map (mem twoPoints) [0, 1]) = 5 / 8"
  by (simp add: twoPoints_def calculateEnergy_sum pairTerm_def distanceTo_def distanceToSquared_def sqrt_64_25)

lemma twoPointsApart_energy: "calculateEnergy (map (mem twoPointsApart) [0, 1]) = 1 / 2"
  by (simp add: twoPoints_def twoPointsApart_def calculateEnergy_sum pairTerm_def distanceTo_def distanceToSquared_def)

lemma twoPointsApart_step: "gdIteration [0, 1] (16/5) twoPointsApart = twoPointsApart"
  by (simp add: gdIteration_two twoPoints_def twoPointsApart_def computeForces_two subVectors_def zeroVector_def
      Let_def movedPoint_def normalize_def
      addScaledVector_def sub_def multiplyScalar_def dot_def vlength_def lengthSq_def
      divideScalar_def)

lemma gdLoop_continue:
  "numGreater d thr \<Longrightarrow> i < maxIter \<Longrightarrow> gdIteration pts lr w = w1
   \<Longrightarrow> calculateEnergy (map (mem w1) pts) = e1 \<Longrightarrow> j = i + 1
   \<Longrightarrow> gdLoop thr pts lr (w, d, e, i) = gdLoop thr pts lr (w1, Finite \<bar>e - e1\<bar>, e1, j)"
  by (subst gdLoop.simps) (simp add: Let_def)

lemma gdLoop_stop:
  "\<not> (numGreater d thr \<and> i < maxIter) \<Longrightarrow> gdLoop thr pts lr (w, d, e, i) = (w, d, e, i)"
  by (subst gdLoop.simps) auto

lemma twoPoints_first_step: "gdIteration [0, 1] (16/5) twoPoints = twoPointsApart"
  unfolding twoPointsApart_def by (rule twoPoints_step_value)

lemma twoPoints_loop: "gdLoop (1 / 10 ^ 8) [0, 1] (16/5) (twoPoints, Infinity, 5 / 8, 0) = (twoPointsApart, Finite 0, 1 / 2, 2)"
proof -
  have "gdLoop (1 / 10 ^ 8) [0, 1] (16/5) (twoPoints, Infinity, 5 / 8, 0)
      = gdLoop (1 / 10 ^ 8) [0, 1] (16/5) (twoPointsApart, Finite \<bar>5 / 8 - 1 / 2\<bar>, 1 / 2, 1)"
    by (rule gdLoop_continue [OF _ _ twoPoints_first_step twoPointsApart_energy])
       (simp_all add: maxIter_def)
  also have "\<dots> = gdLoop (1 / 10 ^ 8) [0, 1] (16/5) (twoPointsApart, Finite \<bar>1 / 2 - 1 / 2\<bar>, 1 / 2, 2)"
    by (rule gdLoop_continue [OF _ _ twoPointsApart_step twoPointsApart_energy])
       (simp_all add: maxIter_def)
  also have "\<dots> = (twoPointsApart, Finite \<bar>1 / 2 - 1 / 2\<bar>, 1 / 2, 2)"
    by (rule gdLoop_stop) simp
  finally show ?thesis by simp
qed

lemma twoPoints_iterations: "gdIterations (1 / 10 ^ 8) [0, 1] (16/5) twoPoints = 2"
  unfolding gdIterations_def twoPoints_energy twoPoints_loop by simp

lemma twoPoints_energyAfter_0: "energyAfter [0, 1] (16/5) twoPoints 0 = 5 / 8"
  unfolding energyAfter_def using twoPoints_energy by simp

lemma twoPoints_energyAfter_1: "energyAfter [0, 1] (16/5) twoPoints 1 = 1 / 2"
  unfolding energyAfter_def using twoPointsApart_energy twoPoints_first_step by simp

theorem gradientDescent_terminates_witness:
  "gdIterations (1 / 10 ^ 8) [0, 1] (16/5) twoPoints = 2
   \<and> (2::nat) < 10000
   \<and> (1::nat) \<le> 1 \<and> (1::nat) < 2
   \<and> \<bar>energyAfter [0, 1] (16/5) twoPoints (2 - 1) - energyAfter [0, 1] (16/5) twoPoints 2\<bar> \<le> 1 / 10 ^ 8
   \<and> 1 / 10 ^ 8 < \<bar>energyAfter [0, 1] (16/5) twoPoints (1 - 1) - energyAfter [0, 1] (16/5) twoPoints 1\<bar>
   \<and> gradientDescent (1 / 10 ^ 8) [0, 1] (16/5) twoPoints = twoPointsApart"
proof -
  note T = gradientDescent_terminates [of "1 / 10 ^ 8" "[0, 1]" "16/5" twoPoints, unfolded twoPoints_iterations]
  have a: "\<bar>energyAfter [0, 1] (16/5) twoPoints (2 - 1) - energyAfter [0, 1] (16/5) twoPoints 2\<bar> \<le> 1 / 10 ^ 8"
    using T by simp
  have b: "1 / 10 ^ 8 < \<bar>energyAfter [0, 1] (16/5) twoPoints (1 - 1) - energyAfter [0, 1] (16/5) twoPoints 1\<bar>"
    using T by simp
  have c: "gradientDescent (1 / 10 ^ 8) [0, 1] (16/5) twoPoints = twoPointsApart"
    unfolding gradientDescent_def twoPoints_energy twoPoints_loop by simp
  show ?thesis using a b c twoPoints_iterations by simp
qed

subsection \<open>The hull edge analyzer\<close>

text \<open>
  C8. For fewer than 4 points the analyzer returns the empty list of groups. It returns
  at its first statement, before the hull is asked for, so whatever \<open>convexGeometry\<close>
  is (missing or not) the result is that list and nothing is thrown.
\<close>

theorem calculateEdgeGroups_few_points:
  "length ps < 4 \<Longrightarrow> calculateEdgeGroups convexGeometry ps = []"
  by (simp add: calculateEdgeGroups_def)

theorem calculateEdgeGroups_few_points_witness:
  "length [Vector3 1 0 0, Vector3 0 1 0, Vector3 0 0 1] < 4
   \<and> calculateEdgeGroups (Some (\<lambda>ps. [1, 0, 0, 0, 1, 0, 0, 0, 1]))
         [Vector3 1 0 0, Vector3 0 1 0, Vector3 0 0 1] = []"
proof -
  have h: "length [Vector3 1 0 0, Vector3 0 1 0, Vector3 0 0 1] < 4" by simp
  show ?thesis
    using calculateEdgeGroups_few_points [OF h, of "Some (\<lambda>ps. [1, 0, 0, 0, 1, 0, 0, 0, 1])"] h
    by simp
qed

subsection \<open>The energy inside one call of the local optimizer\<close>

lemma sqrt_576_169: "sqrt (576/169) = 24/13" by (rule sqrt_rat) simp_all
lemma sqrt_25_9: "sqrt (25/9) = 5/3" by (rule sqrt_rat) simp_all
lemma sqrt_12544_4225: "sqrt (12544/4225) = 112/65" by (rule sqrt_rat) simp_all

lemma overshoot_step1: "gdIteration [0, 1] (768/65) overshoot = overshoot1"
  by (simp add: gdIteration_two overshoot_def overshoot1_def computeForces_two subVectors_def zeroVector_def
      Let_def movedPoint_def normalize_def
      addScaledVector_def sub_def multiplyScalar_def dot_def vlength_def lengthSq_def
      divideScalar_def sqrt_576_169 sqrt_25_9)

lemma overshoot_step2: "gdIteration [0, 1] (768/65) overshoot1 = overshoot2"
  by (simp add: gdIteration_two overshoot_def overshoot1_def overshoot2_def computeForces_two subVectors_def zeroVector_def
      Let_def movedPoint_def normalize_def
      addScaledVector_def sub_def multiplyScalar_def dot_def vlength_def lengthSq_def
      divideScalar_def sqrt_12544_4225)

lemma overshoot_energy0: "calculateEnergy (map (mem overshoot) [0, 1]) = 13 / 24"
  by (simp add: overshoot_def calculateEnergy_sum pairTerm_def distanceTo_def distanceToSquared_def sqrt_576_169)

lemma overshoot_energy1: "calculateEnergy (map (mem overshoot1) [0, 1]) = 65 / 112"
  by (simp add: overshoot_def overshoot1_def calculateEnergy_sum pairTerm_def distanceTo_def distanceToSquared_def sqrt_12544_4225)

lemma overshoot_dist2: "distanceToSquared (mem overshoot2 0) (mem overshoot2 1) = 72264242/25776725"
  by (simp add: overshoot_def overshoot2_def distanceToSquared_def multiplyScalar_def Let_def
      power2_eq_square [symmetric] power_divide field_simps)


lemma overshoot_energy2: "65 / 112 < calculateEnergy (map (mem overshoot2) [0, 1])"
proof -
  let ?d = "distanceTo (mem overshoot2 0) (mem overshoot2 1)"
  have d: "?d = sqrt (72264242/25776725)"
    by (simp only: distanceTo_def overshoot_dist2)
  have "sqrt (72264242/25776725) < 112 / 65"
    by (rule real_less_lsqrt) (simp_all add: power2_eq_square)
  moreover have "0 < sqrt (72264242/25776725 :: real)" by simp
  ultimately have "65 / 112 < 1 / sqrt (72264242/25776725 :: real)"
    by (simp add: field_simps)
  then have "65 / 112 < pairTerm (mem overshoot2 0) (mem overshoot2 1)"
    unfolding pairTerm_def d by simp
  then show ?thesis by (simp add: calculateEnergy_sum)
qed

lemma gdLoop_iter_mono:
  "gdLoop thr pts lr (w, d, calculateEnergy (map (mem w) pts), i) = (w', d', e', k) \<Longrightarrow> i \<le> k"
  using gdLoop_run [OF _ energyAfter_0] by blast

lemma overshoot_iterations: "2 \<le> gdIterations (1 / 10 ^ 8) [0, 1] (768/65) overshoot"
proof -
  define e2 where "e2 = calculateEnergy (map (mem overshoot2) [0, 1])"
  have "gdLoop (1 / 10 ^ 8) [0, 1] (768/65) (overshoot, Infinity, 13 / 24, 0)
      = gdLoop (1 / 10 ^ 8) [0, 1] (768/65) (overshoot1, Finite \<bar>13 / 24 - 65 / 112\<bar>, 65 / 112, 1)"
    by (rule gdLoop_continue [OF _ _ overshoot_step1 overshoot_energy1]) (simp_all add: maxIter_def)
  also have "\<dots> = gdLoop (1 / 10 ^ 8) [0, 1] (768/65) (overshoot2, Finite \<bar>65 / 112 - e2\<bar>, e2, 2)"
    by (rule gdLoop_continue [OF _ _ overshoot_step2 e2_def [symmetric]]) (simp_all add: maxIter_def)
  finally have eq: "gdLoop (1 / 10 ^ 8) [0, 1] (768/65) (overshoot, Infinity, 13 / 24, 0)
      = gdLoop (1 / 10 ^ 8) [0, 1] (768/65) (overshoot2, Finite \<bar>65 / 112 - e2\<bar>, e2, 2)" .
  obtain w' d' e' k where r:
    "gdLoop (1 / 10 ^ 8) [0, 1] (768/65) (overshoot2, Finite \<bar>65 / 112 - e2\<bar>, e2, 2) = (w', d', e', k)"
    by (metis prod_cases4)
  have "2 \<le> k" using gdLoop_iter_mono [OF r [unfolded e2_def]] .
  then show ?thesis
    unfolding gdIterations_def overshoot_energy0 eq r by simp
qed

text \<open>
  The energy can grow inside one call: here the loop runs at least two iterations, and
  the energy after the first is above the energy at entry, the energy after the second
  above the energy after the first.
\<close>

theorem gradientDescent_energy_increase_counterexample:
  "2 \<le> gdIterations (1 / 10 ^ 8) [0, 1] (768/65) overshoot
   \<and> energyAfter [0, 1] (768/65) overshoot 0 < energyAfter [0, 1] (768/65) overshoot 1
   \<and> energyAfter [0, 1] (768/65) overshoot 1 < energyAfter [0, 1] (768/65) overshoot 2"
proof -
  have e0: "energyAfter [0, 1] (768/65) overshoot 0 = 13 / 24"
    unfolding energyAfter_0 [symmetric] by (rule overshoot_energy0)
  have e1: "energyAfter [0, 1] (768/65) overshoot 1 = 65 / 112"
    unfolding energyAfter_def using overshoot_energy1 overshoot_step1 by simp
  have e2: "energyAfter [0, 1] (768/65) overshoot 2 = calculateEnergy (map (mem overshoot2) [0, 1])"
    unfolding energyAfter_def funpow_twice overshoot_step1 overshoot_step2 ..
  show ?thesis
    unfolding e0 e1 e2 using overshoot_iterations overshoot_energy2 by simp
qed

text \<open>
  C5, as amended. Inside one call of the local optimizer the energy may grow from one
  iteration to the next: the points are moved by the fixed learning rate whatever that
  does to the energy, and the loop looks at the absolute value of the change only. What
  holds is that, when the loop ends before the cap of 10000 iterations, the last
  evaluation exceeds the one before it by at most the convergence threshold.
\<close>

theorem gradientDescent_last_change:
  "gdIterations thr pts lr w < 10000 \<longrightarrow>
     energyAfter pts lr w (gdIterations thr pts lr w)
       \<le> energyAfter pts lr w (gdIterations thr pts lr w - 1) + thr"
  using gdIterations_run [of thr pts lr w] by (auto simp: maxIter_def)

theorem gradientDescent_last_change_witness:
  "gdIterations (1 / 10 ^ 8) [0, 1] (16/5) twoPoints < 10000
   \<and> energyAfter [0, 1] (16/5) twoPoints 2 \<le> energyAfter [0, 1] (16/5) twoPoints 1 + 1 / 10 ^ 8"
proof -
  have h: "gdIterations (1 / 10 ^ 8) [0, 1] (16/5) twoPoints < 10000"
    unfolding twoPoints_iterations by simp
  have "energyAfter [0, 1] (16/5) twoPoints 2 \<le> energyAfter [0, 1] (16/5) twoPoints (2 - 1) + 1 / 10 ^ 8"
    using gradientDescent_last_change [of "1 / 10 ^ 8" "[0, 1]" "16/5" twoPoints] h
    unfolding twoPoints_iterations by blast
  moreover have "(2::nat) - 1 = 1" by simp
  ultimately show ?thesis using h by (simp only: simp_thms)
qed

subsection \<open>The store\<close>

lemma alloc_fields [simp]:
  "fst (alloc v w) = nextAddr w"
  "nextAddr (snd (alloc v w)) = Suc (nextAddr w)"
  "mem (snd (alloc v w)) = (mem w)(nextAddr w := v)"
  "rnd (snd (alloc v w)) = rnd w"
  by (simp_all add: alloc_def)

lemma random_fields [simp]:
  "fst (random w) = shd (rnd w)"
  "nextAddr (snd (random w)) = nextAddr w"
  "mem (snd (random w)) = mem w"
  "rnd (snd (random w)) = stl (rnd w)"
  by (simp_all add: random_def)

lemma randomPointOnSphere_fields [simp]:
  "nextAddr (snd (randomPointOnSphere w)) = nextAddr w"
  "mem (snd (randomPointOnSphere w)) = mem w"
  "rnd (snd (randomPointOnSphere w)) = stl (stl (rnd w))"
  by (simp_all add: randomPointOnSphere_def random_def Let_def)

lemma sphere_identity:
  fixes p t :: real
  shows "sin p * cos t * (sin p * cos t) + sin p * sin t * (sin p * sin t) + cos p * cos p = 1"
proof -
  have a: "sin t * sin t + cos t * cos t = 1"
    using sin_cos_squared_add [of t] by (simp add: power2_eq_square)
  have b: "sin p * sin p + cos p * cos p = 1"
    using sin_cos_squared_add [of p] by (simp add: power2_eq_square)
  have "sin p * cos t * (sin p * cos t) + sin p * sin t * (sin p * sin t) + cos p * cos p
      = sin p * sin p * (sin t * sin t + cos t * cos t) + cos p * cos p"
    by (simp only: algebra_simps)
  also have "\<dots> = 1" by (simp only: a b mult_1_right)
  finally show ?thesis .
qed

lemma randomPointOnSphere_unit: "lengthSq (fst (randomPointOnSphere w)) = 1"
  by (simp add: randomPointOnSphere_def random_def Let_def lengthSq_def sphere_identity)

subsection \<open>Crossover\<close>

lemma inheritPoint_eq:
  "inheritPoint keep p (c, w) =
     (if keep (mem w p) then (c @ [nextAddr w], snd (alloc (mem w p) w)) else (c, w))"
  by (simp add: inheritPoint_def alloc_def)

lemma inheritPoint_fold:
  "set ps \<subseteq> {..<nextAddr w} \<Longrightarrow> fold (inheritPoint keep) ps (c, w) = (c', w') \<Longrightarrow>
     c' = c @ [nextAddr w..<nextAddr w'] \<and> nextAddr w \<le> nextAddr w' \<and> rnd w' = rnd w
     \<and> (\<forall>a<nextAddr w. mem w' a = mem w a)
     \<and> map (mem w') [nextAddr w..<nextAddr w'] = map (mem w) (filter (\<lambda>p. keep (mem w p)) ps)"
proof (induction ps arbitrary: c w)
  case Nil
  then show ?case by simp
next
  case (Cons p ps)
  show ?case
  proof (cases "keep (mem w p)")
    case False
    then have "fold (inheritPoint keep) ps (c, w) = (c', w')"
      using Cons.prems(2) by (simp add: inheritPoint_eq)
    then show ?thesis using Cons.IH [of w c] Cons.prems(1) False by simp
  next
    case True
    define w1 where "w1 = snd (alloc (mem w p) w)"
    have st: "inheritPoint keep p (c, w) = (c @ [nextAddr w], w1)"
      using True by (simp add: inheritPoint_eq w1_def)
    have n1: "nextAddr w1 = Suc (nextAddr w)" and r1: "rnd w1 = rnd w"
      and m1: "mem w1 = (mem w)(nextAddr w := mem w p)"
      by (simp_all add: w1_def)
    have sub: "set ps \<subseteq> {..<nextAddr w1}" using Cons.prems(1) n1 by auto
    have f: "fold (inheritPoint keep) ps (c @ [nextAddr w], w1) = (c', w')"
      using Cons.prems(2) st by simp
    note IH = Cons.IH [OF sub f]
    have le: "Suc (nextAddr w) \<le> nextAddr w'" using IH n1 by simp
    then have upt: "[nextAddr w..<nextAddr w'] = nextAddr w # [Suc (nextAddr w)..<nextAddr w']"
      by (simp add: upt_conv_Cons)
    have same: "\<And>q. q \<in> set (p # ps) \<Longrightarrow> mem w1 q = mem w q"
      using Cons.prems(1) m1 by auto
    have filt: "filter (\<lambda>q. keep (mem w1 q)) ps = filter (\<lambda>q. keep (mem w q)) ps"
      by (rule filter_cong) (simp_all add: same)
    have mp: "map (mem w1) (filter (\<lambda>q. keep (mem w q)) ps) = map (mem w) (filter (\<lambda>q. keep (mem w q)) ps)"
      by (rule map_cong) (simp_all add: same)
    have old: "\<forall>a<nextAddr w. mem w' a = mem w a"
      using IH n1 m1 by auto
    have new: "mem w' (nextAddr w) = mem w p"
      using IH n1 m1 by auto
    show ?thesis
      using IH le old new True by (simp add: upt n1 r1 filt mp)
  qed
qed


lemma padChild_result:
  "padChild n (c, w) = (c', w') \<Longrightarrow>
     c' = c @ [nextAddr w..<nextAddr w'] \<and> nextAddr w' = nextAddr w + (n - length c)
     \<and> (\<forall>a<nextAddr w. mem w' a = mem w a)
     \<and> (\<forall>a. nextAddr w \<le> a \<and> a < nextAddr w' \<longrightarrow> lengthSq (mem w' a) = 1)
     \<and> rnd w' = sdrop (2 * (n - length c)) (rnd w)"
proof (induction "n - length c" arbitrary: c w)
  case 0
  then have "padChild n (c, w) = (c, w)" by (subst padChild.simps) simp
  then show ?case using 0 by simp
next
  case (Suc k)
  then have True: "length c < n" by simp
  define v where "v = fst (randomPointOnSphere w)"
  define w1 where "w1 = snd (randomPointOnSphere w)"
  define w2 where "w2 = snd (alloc v w1)"
  have n1: "nextAddr w1 = nextAddr w" by (simp add: w1_def)
  have call: "padChild n (c @ [nextAddr w], w2) = (c', w')"
    using Suc.prems True
    by (subst (asm) padChild.simps)
       (simp add: case_prod_beta Let_def v_def [symmetric] w1_def [symmetric] w2_def [symmetric] n1)
  have "k = n - length (c @ [nextAddr w])" using Suc.hyps(2) by simp
  note IH = Suc.hyps(1) [OF this call]
  have n2: "nextAddr w2 = Suc (nextAddr w)" by (simp add: w2_def w1_def)
  have m2: "mem w2 = (mem w)(nextAddr w := v)" by (simp add: w2_def w1_def)
  have r2: "rnd w2 = stl (stl (rnd w))" by (simp add: w2_def w1_def)
  have unit: "lengthSq v = 1" by (simp add: v_def randomPointOnSphere_unit)
  have le: "Suc (nextAddr w) \<le> nextAddr w'" using IH n2 by simp
  then have upt: "[nextAddr w..<nextAddr w'] = nextAddr w # [Suc (nextAddr w)..<nextAddr w']"
    by (simp add: upt_conv_Cons)
  have k: "n - length c = Suc (n - Suc (length c))" using True by simp
  have "c' = (c @ [nextAddr w]) @ [nextAddr w2..<nextAddr w']" using IH by blast
  then have A: "c' = c @ [nextAddr w..<nextAddr w']"
    by (simp only: n2 upt append_assoc append_Cons append_Nil)
  have B: "nextAddr w' = nextAddr w + (n - length c)" using IH True by (simp add: n2)
  have C: "\<forall>a<nextAddr w. mem w' a = mem w a" using IH by (simp add: n2 m2)
  have D: "\<forall>a. nextAddr w \<le> a \<and> a < nextAddr w' \<longrightarrow> lengthSq (mem w' a) = 1"
  proof (intro allI impI)
    fix a assume a: "nextAddr w \<le> a \<and> a < nextAddr w'"
    show "lengthSq (mem w' a) = 1"
    proof (cases "a = nextAddr w")
      case True
      then have "mem w' a = v" using IH by (simp add: n2 m2)
      then show ?thesis using unit by simp
    next
      case False
      then show ?thesis using IH a by (simp add: n2)
    qed
  qed
  have E: "rnd w' = sdrop (2 * (n - length c)) (rnd w)"
    using IH by (simp add: r2 k)
  show ?case using A B C D E by simp
qed

lemma fold_nested_pairs:
  "fold (\<lambda>i st. fold (\<lambda>j st. f i j st) (js i) st) is st
   = fold (\<lambda>(i, j) st. f i j st) (concat (map (\<lambda>i. map (Pair i) (js i)) is)) st"
proof (induction "is" arbitrary: st)
  case Nil
  then show ?case by simp
next
  case (Cons i "is")
  have "fold (\<lambda>(i, j) st. f i j st) (map (Pair i) (js i)) st = fold (\<lambda>j st. f i j st) (js i) st"
    by (simp add: fold_map o_def)
  then show ?case using Cons by simp
qed

lemma set_pairsOf: "set (pairsOf n) = {(i, j). i < j \<and> j < n}"
  by (force simp: pairsOf_def)

lemma scan_pairs:
  "fold (\<lambda>(i, j) st. scanPair ps i j st) prs (Infinity, None) = (m, r) \<Longrightarrow>
     (prs = [] \<and> m = Infinity \<and> r = None)
     \<or> (\<exists>i j. (i, j) \<in> set prs \<and> r = Some i \<and> m = Finite (distanceTo (ps ! i) (ps ! j))
          \<and> (\<forall>(i', j') \<in> set prs. distanceTo (ps ! i) (ps ! j) \<le> distanceTo (ps ! i') (ps ! j')))"
proof (induction prs arbitrary: m r rule: rev_induct)
  case Nil
  then show ?case by simp
next
  case (snoc pr prs)
  obtain i j where pr: "pr = (i, j)" by (cases pr)
  obtain m0 r0 where f0: "fold (\<lambda>(i, j) st. scanPair ps i j st) prs (Infinity, None) = (m0, r0)"
    by (cases "fold (\<lambda>(i, j) st. scanPair ps i j st) prs (Infinity, None)")
  have step: "(m, r) = scanPair ps i j (m0, r0)"
    using snoc.prems f0 pr by simp
  let ?d = "distanceTo (ps ! i) (ps ! j)"
  from snoc.IH [OF f0] show ?case
  proof
    assume e: "prs = [] \<and> m0 = Infinity \<and> r0 = None"
    then have "m = Finite ?d" "r = Some i" using step by (simp_all add: scanPair_def)
    then show ?thesis using e pr by auto
  next
    assume "\<exists>i0 j0. (i0, j0) \<in> set prs \<and> r0 = Some i0 \<and> m0 = Finite (distanceTo (ps ! i0) (ps ! j0))
          \<and> (\<forall>(i', j') \<in> set prs. distanceTo (ps ! i0) (ps ! j0) \<le> distanceTo (ps ! i') (ps ! j'))"
    then obtain i0 j0 where o: "(i0, j0) \<in> set prs" "r0 = Some i0"
        "m0 = Finite (distanceTo (ps ! i0) (ps ! j0))"
        "\<forall>(i', j') \<in> set prs. distanceTo (ps ! i0) (ps ! j0) \<le> distanceTo (ps ! i') (ps ! j')"
      by blast
    show ?thesis
    proof (cases "?d < distanceTo (ps ! i0) (ps ! j0)")
      case True
      then have "m = Finite ?d" "r = Some i" using step o by (simp_all add: scanPair_def)
      moreover have "\<forall>(i', j') \<in> set (prs @ [pr]). ?d \<le> distanceTo (ps ! i') (ps ! j')"
        using o(4) True pr by fastforce
      ultimately show ?thesis using pr by auto
    next
      case False
      then have "m = m0" "r = r0" using step o by (simp_all add: scanPair_def)
      moreover have "\<forall>(i', j') \<in> set (prs @ [pr]). distanceTo (ps ! i0) (ps ! j0) \<le> distanceTo (ps ! i') (ps ! j')"
        using o(4) False pr by fastforce
      ultimately show ?thesis using o by auto
    qed
  qed
qed

lemma findRemoveIdx_pairs:
  "findRemoveIdx ps = snd (fold (\<lambda>(i, j) st. scanPair ps i j st) (pairsOf (length ps)) (Infinity, None))"
  unfolding findRemoveIdx_def pairsOf_def
  by (simp only: fold_nested_pairs [of "scanPair ps" "\<lambda>i. [i + 1..<length ps]"])

lemma findRemoveIdx_None: "length ps < 2 \<Longrightarrow> findRemoveIdx ps = None"
proof -
  assume "length ps < 2"
  then have "set (pairsOf (length ps)) = {}" unfolding set_pairsOf by auto
  then have "pairsOf (length ps) = []" by simp
  then show ?thesis by (simp add: findRemoveIdx_pairs)
qed

lemma findRemoveIdx_closest:
  assumes "2 \<le> length ps"
  shows "\<exists>i. findRemoveIdx ps = Some i \<and> closestPairLower ps i"
proof -
  obtain m r where f: "fold (\<lambda>(i, j) st. scanPair ps i j st) (pairsOf (length ps)) (Infinity, None) = (m, r)"
    by (cases "fold (\<lambda>(i, j) st. scanPair ps i j st) (pairsOf (length ps)) (Infinity, None)")
  have "(0, 1) \<in> set (pairsOf (length ps))" using assms unfolding set_pairsOf by auto
  then have ne: "pairsOf (length ps) \<noteq> []" by auto
  from scan_pairs [OF f] ne obtain i j where
    o: "(i, j) \<in> set (pairsOf (length ps))" "r = Some i"
       "\<forall>(i', j') \<in> set (pairsOf (length ps)). distanceTo (ps ! i) (ps ! j) \<le> distanceTo (ps ! i') (ps ! j')"
    by blast
  have "closestPairLower ps i"
    unfolding closestPairLower_def using o(1,3) unfolding set_pairsOf by auto
  moreover have "findRemoveIdx ps = Some i" by (simp add: findRemoveIdx_pairs f o(2))
  ultimately show ?thesis by blast
qed

lemma trimChild_trimmed: "trimmed n w c (trimChild n w c)"
proof (induction n w c rule: trimChild.induct)
  case (1 n w c)
  show ?case
  proof (cases "n < length c")
    case False
    then have "trimChild n w c = c" by (subst trimChild.simps) simp
    then show ?thesis using False by (simp add: trimmed.enough)
  next
    case True
    show ?thesis
    proof (cases "findRemoveIdx (map (mem w) c)")
      case None
      then have t: "trimChild n w c = trimChild n w (butlast c)"
        using True by (subst trimChild.simps) simp
      have "length c < 2"
      proof (rule ccontr)
        assume "\<not> length c < 2"
        then have "2 \<le> length (map (mem w) c)" by simp
        from findRemoveIdx_closest [OF this] None show False by simp
      qed
      then show ?thesis using True "1.IH"(1) [OF True None] t by (auto intro: trimmed.single)
    next
      case (Some i)
      then have t: "trimChild n w c = trimChild n w (splice1 i c)"
        using True by (subst trimChild.simps) simp
      have "2 \<le> length (map (mem w) c)"
      proof (rule ccontr)
        assume "\<not> 2 \<le> length (map (mem w) c)"
        then have "length (map (mem w) c) < 2" by simp
        from findRemoveIdx_None [OF this] Some show False by simp
      qed
      from findRemoveIdx_closest [OF this] Some have "closestPairLower (map (mem w) c) i" by simp
      then show ?thesis using True "1.IH"(2) [OF True Some] t by (auto intro: trimmed.remove)
    qed
  qed
qed

lemma trimChild_length: "length (trimChild n w c) = min n (length c)"
proof (induction n w c rule: trimChild.induct)
  case (1 n w c)
  show ?case
  proof (cases "n < length c")
    case False
    then have "trimChild n w c = c" by (subst trimChild.simps) simp
    then show ?thesis using False by simp
  next
    case True
    show ?thesis
    proof (cases "findRemoveIdx (map (mem w) c)")
      case None
      then have t: "trimChild n w c = trimChild n w (butlast c)"
        using True by (subst trimChild.simps) simp
      show ?thesis using True "1.IH"(1) [OF True None] t by auto
    next
      case (Some i)
      then have t: "trimChild n w c = trimChild n w (splice1 i c)"
        using True by (subst trimChild.simps) simp
      have "i < length c" using findRemoveIdx_bound [OF Some] by simp
      then have "length (splice1 i c) = length c - 1" by (simp add: splice1_def)
      then show ?thesis using True "1.IH"(2) [OF True Some] t by auto
    qed
  qed
qed

lemma trimChild_subset: "set (trimChild n w c) \<subseteq> set c"
proof (induction n w c rule: trimChild.induct)
  case (1 n w c)
  show ?case
  proof (cases "n < length c")
    case False
    then have "trimChild n w c = c" by (subst trimChild.simps) simp
    then show ?thesis by simp
  next
    case True
    show ?thesis
    proof (cases "findRemoveIdx (map (mem w) c)")
      case None
      then have t: "trimChild n w c = trimChild n w (butlast c)"
        using True by (subst trimChild.simps) simp
      show ?thesis using "1.IH"(1) [OF True None] t by (auto dest: in_set_butlastD)
    next
      case (Some i)
      then have t: "trimChild n w c = trimChild n w (splice1 i c)"
        using True by (subst trimChild.simps) simp
      have "set (splice1 i c) \<subseteq> set c"
        by (auto simp: splice1_def dest: in_set_takeD in_set_dropD)
      then show ?thesis using "1.IH"(2) [OF True Some] t by auto
    qed
  qed
qed


lemma upt_split: "i \<le> j \<Longrightarrow> j \<le> k \<Longrightarrow> [i..<k] = [i..<j] @ [j..<k]"
  using upt_add_eq_append [of i j "k - j"] by simp

lemma sset_sdrop_subset: "sset (sdrop n s) \<subseteq> sset s"
  by (auto simp: sset_range sdrop_snth)

lemma crossover_parts:
  assumes alloc: "set parentA \<union> set parentB \<subseteq> {..<nextAddr w}"
    and cross: "crossover n parentA parentB w = (child, w')"
  shows "\<exists>m. nextAddr w \<le> m \<and> m \<le> nextAddr w'
     \<and> map (mem w') [nextAddr w..<m]
         = map (mem w) (inherited (fst (randomPointOnSphere w)) w parentA parentB)
     \<and> nextAddr w' = m + (n - (m - nextAddr w))
     \<and> (\<forall>a. m \<le> a \<and> a < nextAddr w' \<longrightarrow> lengthSq (mem w' a) = 1)
     \<and> (\<forall>a<nextAddr w. mem w' a = mem w a)
     \<and> child = trimChild n w' ([nextAddr w..<m] @ [m..<nextAddr w'])
     \<and> sset (rnd w') \<subseteq> sset (rnd w)"
proof -
  define normal where "normal = fst (randomPointOnSphere w)"
  define w1 where "w1 = snd (randomPointOnSphere w)"
  obtain c2 w2 where f2: "fold (inheritPoint (\<lambda>p. dot p normal \<ge> 0)) parentA ([], w1) = (c2, w2)"
    by (cases "fold (inheritPoint (\<lambda>p. dot p normal \<ge> 0)) parentA ([], w1)")
  obtain c3 w3 where f3: "fold (inheritPoint (\<lambda>p. dot p normal < 0)) parentB (c2, w2) = (c3, w3)"
    by (cases "fold (inheritPoint (\<lambda>p. dot p normal < 0)) parentB (c2, w2)")
  obtain c4 w4 where f4: "padChild n (c3, w3) = (c4, w4)"
    by (cases "padChild n (c3, w3)")
  have "trimChild n w4 c4 = child \<and> w4 = w'"
    using cross
    by (auto simp: crossover_def case_prod_beta Let_def normal_def [symmetric]
        w1_def [symmetric] f2 f3 f4)
  then have res: "child = trimChild n w4 c4" "w' = w4" by auto
  have n1: "nextAddr w1 = nextAddr w" and m1: "mem w1 = mem w" and r1: "rnd w1 = stl (stl (rnd w))"
    by (simp_all add: w1_def)
  have sA: "set parentA \<subseteq> {..<nextAddr w1}" using alloc n1 by simp
  note I2 = inheritPoint_fold [OF sA f2]
  have sB: "set parentB \<subseteq> {..<nextAddr w2}" using alloc n1 I2 by auto
  note I3 = inheritPoint_fold [OF sB f3]
  note P4 = padChild_result [OF f4]
  have c3: "c3 = [nextAddr w..<nextAddr w3]"
  proof -
    have "c3 = [nextAddr w..<nextAddr w2] @ [nextAddr w2..<nextAddr w3]"
      using I2 I3 n1 by simp
    moreover have "nextAddr w \<le> nextAddr w2" "nextAddr w2 \<le> nextAddr w3" using I2 I3 n1 by simp_all
    ultimately show ?thesis by (simp add: upt_split [of "nextAddr w" "nextAddr w2" "nextAddr w3"])
  qed
  have sameB: "\<And>q. q \<in> set parentB \<Longrightarrow> mem w2 q = mem w q"
    using I2 alloc n1 m1 by auto
  have filtB: "filter (\<lambda>p. dot (mem w2 p) normal < 0) parentB = filter (\<lambda>p. dot (mem w p) normal < 0) parentB"
    by (rule filter_cong) (simp_all add: sameB)
  have mapB: "map (mem w2) (filter (\<lambda>p. dot (mem w p) normal < 0) parentB)
      = map (mem w) (filter (\<lambda>p. dot (mem w p) normal < 0) parentB)"
    by (rule map_cong) (simp_all add: sameB)
  have v3: "map (mem w3) [nextAddr w..<nextAddr w3] = map (mem w) (inherited normal w parentA parentB)"
  proof -
    have "map (mem w3) [nextAddr w..<nextAddr w2] = map (mem w2) [nextAddr w..<nextAddr w2]"
      using I3 by simp
    also have "\<dots> = map (mem w) (filter (\<lambda>p. dot (mem w p) normal \<ge> 0) parentA)"
      using I2 by (simp add: n1 m1)
    finally have a: "map (mem w3) [nextAddr w..<nextAddr w2]
        = map (mem w) (filter (\<lambda>p. dot (mem w p) normal \<ge> 0) parentA)" .
    have b: "map (mem w3) [nextAddr w2..<nextAddr w3]
        = map (mem w) (filter (\<lambda>p. dot (mem w p) normal < 0) parentB)"
      using I3 by (simp add: filtB mapB)
    have "[nextAddr w..<nextAddr w3] = [nextAddr w..<nextAddr w2] @ [nextAddr w2..<nextAddr w3]"
      using I2 I3 n1 by (simp add: upt_split [of "nextAddr w" "nextAddr w2" "nextAddr w3"])
    then show ?thesis using a b by (simp add: inherited_def)
  qed
  have v4: "map (mem w4) [nextAddr w..<nextAddr w3] = map (mem w3) [nextAddr w..<nextAddr w3]"
    using P4 by simp
  have len3: "length c3 = nextAddr w3 - nextAddr w" using c3 by simp
  have old: "\<forall>a<nextAddr w. mem w4 a = mem w a"
  proof (intro allI impI)
    fix a assume a: "a < nextAddr w"
    have "nextAddr w \<le> nextAddr w2" "nextAddr w2 \<le> nextAddr w3" using I2 I3 n1 by simp_all
    then have "mem w4 a = mem w3 a" "mem w3 a = mem w2 a" "mem w2 a = mem w1 a"
      using P4 I3 I2 a n1 by simp_all
    then show "mem w4 a = mem w a" using m1 by simp
  qed
  have rr: "sset (rnd w4) \<subseteq> sset (rnd w)"
  proof -
    have "rnd w4 = sdrop (2 * (n - length c3)) (stl (stl (rnd w)))"
      using P4 I3 I2 r1 by simp
    also have "\<dots> = sdrop (2 * (n - length c3) + 2) (rnd w)" by simp
    finally show ?thesis using sset_sdrop_subset by metis
  qed
  show ?thesis
    apply (rule exI [of _ "nextAddr w3"])
    using I2 I3 n1 P4 v3 v4 old rr res c3 len3 by (simp add: normal_def)
qed


lemma facing_normal: "randomPointOnSphere facing = (Vector3 1 0 0, facing\<lparr>rnd := sconst (1 / 2)\<rparr>)"
  by (simp add: randomPointOnSphere_def random_def facing_def Let_def arccos_0)

lemma findRemoveIdx_two: "findRemoveIdx [p, q] = Some 0"
  by (simp add: findRemoveIdx_def scanPair_def upt_rec numeral_2_eq_2)

lemma facing_crossover: "crossover 1 [0] [1] facing = ([3], facingCrossed)"
proof -
  have pad: "padChild 1 ([2, 3], facingCrossed) = ([2, 3], facingCrossed)"
    by (subst padChild.simps) simp
  have "trimChild 1 facingCrossed [2, 3] = trimChild 1 facingCrossed [3]"
    by (subst trimChild.simps) (simp add: findRemoveIdx_two splice1_def)
  also have "\<dots> = [3]" by (subst trimChild.simps) simp
  finally have trim: "trimChild 1 facingCrossed [2, 3] = [3]" .
  have inh: "fold (inheritPoint (\<lambda>p. dot p (Vector3 1 0 0) < 0)) [1]
       (fold (inheritPoint (\<lambda>p. 0 \<le> dot p (Vector3 1 0 0))) [0] ([], facing\<lparr>rnd := sconst (1 / 2)\<rparr>))
     = ([2, 3], facingCrossed)"
    by (simp add: inheritPoint_eq facing_def facingCrossed_def dot_def alloc_def fun_upd_twist)
  show ?thesis
    by (simp only: crossover_def facing_normal Let_def prod.case inh pad trim)
qed


lemma crossover_child:
  assumes alloc: "set parentA \<union> set parentB \<subseteq> {..<nextAddr w}"
    and cross: "crossover n parentA parentB w = (child, w')"
  shows "length child = n" and "set child \<subseteq> {nextAddr w..<nextAddr w'}"
proof -
  from crossover_parts [OF alloc cross] obtain m where
    m: "nextAddr w \<le> m" "m \<le> nextAddr w'" "nextAddr w' = m + (n - (m - nextAddr w))"
       "child = trimChild n w' ([nextAddr w..<m] @ [m..<nextAddr w'])"
    by blast
  have all: "[nextAddr w..<m] @ [m..<nextAddr w'] = [nextAddr w..<nextAddr w']"
    using m(1,2) by (simp add: upt_split [symmetric])
  have "length [nextAddr w..<nextAddr w'] = (m - nextAddr w) + (n - (m - nextAddr w))"
    using m(1,3) by simp
  then show "length child = n"
    unfolding m(4) all trimChild_length by simp
  show "set child \<subseteq> {nextAddr w..<nextAddr w'}"
    unfolding m(4) all using trimChild_subset [of n w' "[nextAddr w..<nextAddr w']"] by simp
qed

text \<open>
  C4. For two parents that are configurations of the store, \<open>crossover\<close> returns exactly
  \<open>n\<close> points. The child starts (\<open>start\<close>) from copies of the points of parent A
  whose dot product with the normal is at least 0, followed by copies of the points of
  parent B whose dot product is below 0; \<open>fresh\<close> are the points added while it is
  short, new objects on the unit sphere; when the start is not longer than \<open>n\<close> the
  child is both together, and in every case the child comes from them by removing, while
  more than \<open>n\<close> are left, the lower-indexed point of a pair at the smallest distance.
\<close>

theorem crossover_cardinality:
  "set parentA \<union> set parentB \<subseteq> {..<nextAddr w} \<Longrightarrow>
   crossover n parentA parentB w = (child, w') \<Longrightarrow>
   length child = n
   \<and> (\<exists>start fresh.
         map (mem w') start
           = map (mem w) (filter (\<lambda>p. dot (mem w p) (fst (randomPointOnSphere w)) \<ge> 0) parentA
                          @ filter (\<lambda>p. dot (mem w p) (fst (randomPointOnSphere w)) < 0) parentB)
       \<and> length fresh = n - length start
       \<and> (\<forall>a \<in> set fresh. nextAddr w \<le> a \<and> lengthSq (mem w' a) = 1)
       \<and> (length start \<le> n \<longrightarrow> child = start @ fresh)
       \<and> trimmed n w' (start @ fresh) child)"
proof -
  assume alloc: "set parentA \<union> set parentB \<subseteq> {..<nextAddr w}"
    and cross: "crossover n parentA parentB w = (child, w')"
  from crossover_parts [OF alloc cross] obtain m where
    m: "nextAddr w \<le> m" "m \<le> nextAddr w'"
       "map (mem w') [nextAddr w..<m]
         = map (mem w) (inherited (fst (randomPointOnSphere w)) w parentA parentB)"
       "nextAddr w' = m + (n - (m - nextAddr w))"
       "\<forall>a. m \<le> a \<and> a < nextAddr w' \<longrightarrow> lengthSq (mem w' a) = 1"
       "child = trimChild n w' ([nextAddr w..<m] @ [m..<nextAddr w'])"
    by blast
  let ?start = "[nextAddr w..<m]" and ?fresh = "[m..<nextAddr w']"
  have A: "map (mem w') ?start
      = map (mem w) (filter (\<lambda>p. dot (mem w p) (fst (randomPointOnSphere w)) \<ge> 0) parentA
                     @ filter (\<lambda>p. dot (mem w p) (fst (randomPointOnSphere w)) < 0) parentB)"
    using m(3) by (simp add: inherited_def)
  have B: "length ?fresh = n - length ?start" using m(4) by simp
  have C: "\<forall>a \<in> set ?fresh. nextAddr w \<le> a \<and> lengthSq (mem w' a) = 1"
    using m(1,5) by auto
  have D: "length ?start \<le> n \<longrightarrow> child = ?start @ ?fresh"
  proof
    assume "length ?start \<le> n"
    then have "length (?start @ ?fresh) \<le> n" using m(4) by simp
    then show "child = ?start @ ?fresh"
      unfolding m(6) by (subst trimChild.simps) simp
  qed
  have E: "trimmed n w' (?start @ ?fresh) child"
    unfolding m(6) by (rule trimChild_trimmed)
  have "length child = n" using crossover_child(1) [OF alloc cross] .
  then show ?thesis using A B C D E by blast
qed

lemma facing_alloc: "set [0] \<union> set [1] \<subseteq> {..<nextAddr facing}"
  by (simp add: facing_def)

theorem crossover_cardinality_witness:
  "set [0] \<union> set [1] \<subseteq> {..<nextAddr facing}
   \<and> crossover 1 [0] [1] facing = ([3], facingCrossed)
   \<and> length [3 :: nat] = 1"
  using crossover_cardinality [OF facing_alloc facing_crossover] facing_alloc facing_crossover
  by blast

text \<open>
  C10. \<open>crossover\<close> leaves both parents as they were: their points have the values
  they had before the call, and no point of the child is a point of a parent (every
  point of the child is an object created during the call).
\<close>

theorem crossover_parents_unchanged:
  "set parentA \<union> set parentB \<subseteq> {..<nextAddr w} \<Longrightarrow>
   crossover n parentA parentB w = (child, w') \<Longrightarrow>
   map (mem w') parentA = map (mem w) parentA
   \<and> map (mem w') parentB = map (mem w) parentB
   \<and> set child \<inter> (set parentA \<union> set parentB) = {}
   \<and> (\<forall>a \<in> set child. nextAddr w \<le> a \<and> a < nextAddr w')"
proof -
  assume alloc: "set parentA \<union> set parentB \<subseteq> {..<nextAddr w}"
    and cross: "crossover n parentA parentB w = (child, w')"
  from crossover_parts [OF alloc cross] have old: "\<forall>a<nextAddr w. mem w' a = mem w a"
    by blast
  have new: "set child \<subseteq> {nextAddr w..<nextAddr w'}"
    using crossover_child(2) [OF alloc cross] .
  have A: "map (mem w') parentA = map (mem w) parentA"
    by (rule map_cong) (use alloc old in auto)
  have B: "map (mem w') parentB = map (mem w) parentB"
    by (rule map_cong) (use alloc old in auto)
  have C: "set child \<inter> (set parentA \<union> set parentB) = {}"
    using alloc new by fastforce
  show ?thesis using A B C new by auto
qed

theorem crossover_parents_unchanged_witness:
  "set [0] \<union> set [1] \<subseteq> {..<nextAddr facing}
   \<and> crossover 1 [0] [1] facing = ([3], facingCrossed)
   \<and> map (mem facingCrossed) [0] = map (mem facing) [0]
   \<and> map (mem facingCrossed) [1] = map (mem facing) [1]
   \<and> set [3 :: nat] \<inter> (set [0] \<union> set [1]) = {}"
  using crossover_parents_unchanged [OF facing_alloc facing_crossover] facing_alloc facing_crossover
  by blast

subsection \<open>The unit sphere\<close>

lemma vlength_unit: "vlength v = 1 \<longleftrightarrow> lengthSq v = 1"
  by (simp add: vlength_def)

lemma lengthSq_nonneg: "0 \<le> lengthSq v"
  by (simp add: lengthSq_def)

lemma lengthSq_multiplyScalar: "lengthSq (multiplyScalar a s) = lengthSq a * (s * s)"
  by (simp add: lengthSq_def multiplyScalar_def algebra_simps)

lemma lengthSq_normalize: "lengthSq a \<noteq> 0 \<Longrightarrow> lengthSq (normalize a) = 1"
proof -
  assume nz: "lengthSq a \<noteq> 0"
  then have pos: "0 < lengthSq a" using lengthSq_nonneg [of a] by simp
  then have v: "vlength a \<noteq> 0" by (simp add: vlength_def)
  have sq: "vlength a * vlength a = lengthSq a"
    using pos by (simp add: vlength_def)
  have "lengthSq (normalize a) = lengthSq a * ((1 / vlength a) * (1 / vlength a))"
    using v by (simp add: normalize_def divideScalar_def lengthSq_multiplyScalar)
  also have "\<dots> = lengthSq a / (vlength a * vlength a)" by simp
  also have "\<dots> = 1" using nz by (simp add: sq)
  finally show ?thesis .
qed

lemma lengthSq_moved:
  assumes "lengthSq p = 1"
  shows "lengthSq (addScaledVector p (sub f (multiplyScalar p (dot f p))) lr)
     = 1 + lr * lr * lengthSq (sub f (multiplyScalar p (dot f p)))"
proof -
  define t where "t = sub f (multiplyScalar p (dot f p))"
  have orth: "dot p t = 0"
  proof -
    have "dot p t = dot f p - dot f p * lengthSq p"
      by (simp add: t_def dot_def sub_def multiplyScalar_def lengthSq_def algebra_simps)
    then show ?thesis using assms by simp
  qed
  have "lengthSq (addScaledVector p t lr) = lengthSq p + 2 * lr * dot p t + lr * lr * lengthSq t"
    by (simp add: lengthSq_def addScaledVector_def dot_def algebra_simps)
  then show ?thesis using assms orth by (simp add: t_def)
qed

lemma movedPoint_unit: "lengthSq p = 1 \<Longrightarrow> lengthSq (movedPoint p f lr) = 1"
proof -
  assume u: "lengthSq p = 1"
  have "0 \<le> lr * lr * lengthSq (sub f (multiplyScalar p (dot f p)))"
    using lengthSq_nonneg by simp
  then have "lengthSq (addScaledVector p (sub f (multiplyScalar p (dot f p))) lr) \<noteq> 0"
    unfolding lengthSq_moved [OF u] by linarith
  then show ?thesis unfolding movedPoint_def by (rule lengthSq_normalize)
qed

lemma movePoint_fields [simp]:
  "nextAddr (movePoint pts forces lr i w) = nextAddr w"
  "rnd (movePoint pts forces lr i w) = rnd w"
  by (simp_all add: movePoint_movedPoint)

lemma movePoint_fold:
  "set is \<subseteq> {..<length pts} \<Longrightarrow> w' = fold (movePoint pts forces lr) is w \<Longrightarrow>
     nextAddr w' = nextAddr w \<and> rnd w' = rnd w
     \<and> (\<forall>a. a \<notin> set pts \<longrightarrow> mem w' a = mem w a)
     \<and> ((\<forall>a \<in> set pts. lengthSq (mem w a) = 1) \<longrightarrow> (\<forall>a \<in> set pts. lengthSq (mem w' a) = 1))"
proof (induction "is" arbitrary: w)
  case Nil
  then show ?case by simp
next
  case (Cons i "is")
  define w1 where "w1 = movePoint pts forces lr i w"
  have i: "i < length pts" using Cons.prems(1) by simp
  have sub: "set is \<subseteq> {..<length pts}" using Cons.prems(1) by simp
  have w': "w' = fold (movePoint pts forces lr) is w1" using Cons.prems(2) by (simp add: w1_def)
  note IH = Cons.IH [OF sub w']
  have m1: "mem w1 = (mem w)(pts ! i := movedPoint (mem w (pts ! i)) (forces ! i) lr)"
    by (simp add: w1_def movePoint_movedPoint)
  have out: "\<forall>a. a \<notin> set pts \<longrightarrow> mem w1 a = mem w a"
    using i m1 by auto
  have unit: "(\<forall>a \<in> set pts. lengthSq (mem w a) = 1) \<longrightarrow> (\<forall>a \<in> set pts. lengthSq (mem w1 a) = 1)"
    using i m1 by (auto simp: movedPoint_unit)
  show ?case using IH out unit by (simp add: w1_def)
qed

lemma gdIteration_fold:
  "nextAddr (gdIteration pts lr w) = nextAddr w \<and> rnd (gdIteration pts lr w) = rnd w
     \<and> (\<forall>a. a \<notin> set pts \<longrightarrow> mem (gdIteration pts lr w) a = mem w a)
     \<and> ((\<forall>a \<in> set pts. lengthSq (mem w a) = 1)
          \<longrightarrow> (\<forall>a \<in> set pts. lengthSq (mem (gdIteration pts lr w) a) = 1))"
proof -
  have s: "set [0..<length pts] \<subseteq> {..<length pts}" by auto
  have e: "gdIteration pts lr w
      = fold (movePoint pts (computeForces (map (mem w) pts)) lr) [0..<length pts] w"
    by (simp add: gdIteration_def Let_def)
  show ?thesis using movePoint_fold [OF s e] .
qed

lemma gdIteration_frame:
  "nextAddr (gdIteration pts lr w) = nextAddr w"
  "rnd (gdIteration pts lr w) = rnd w"
  "a \<notin> set pts \<Longrightarrow> mem (gdIteration pts lr w) a = mem w a"
  using gdIteration_fold [of pts lr w] by simp_all

lemma gdIteration_unit: "unitConfig w pts \<Longrightarrow> unitConfig (gdIteration pts lr w) pts"
  using gdIteration_fold [of pts lr w] by (simp add: unitConfig_def vlength_unit)

lemma gdIterations_frame:
  "nextAddr ((gdIteration pts lr ^^ k) w) = nextAddr w"
  "rnd ((gdIteration pts lr ^^ k) w) = rnd w"
  "a \<notin> set pts \<Longrightarrow> mem ((gdIteration pts lr ^^ k) w) a = mem w a"
  by (induction k) (simp_all add: gdIteration_frame)

lemma gdIterations_unit: "unitConfig w pts \<Longrightarrow> unitConfig ((gdIteration pts lr ^^ k) w) pts"
  by (induction k) (simp_all add: gdIteration_unit)

lemma gradientDescent_iterate:
  "gradientDescent thr pts lr w = (gdIteration pts lr ^^ gdIterations thr pts lr w) w"
  using gdIterations_run [of thr pts lr w] by blast

lemma gradientDescent_frame:
  "nextAddr (gradientDescent thr pts lr w) = nextAddr w"
  "rnd (gradientDescent thr pts lr w) = rnd w"
  "a \<notin> set pts \<Longrightarrow> mem (gradientDescent thr pts lr w) a = mem w a"
  by (simp_all add: gradientDescent_iterate gdIterations_frame)

lemma gradientDescent_unit: "unitConfig w pts \<Longrightarrow> unitConfig (gradientDescent thr pts lr w) pts"
  by (simp add: gradientDescent_iterate gdIterations_unit)

lemma dot_lower: "lengthSq p = 1 \<Longrightarrow> lengthSq r = 1 \<Longrightarrow> - 1 \<le> dot p r"
proof -
  assume p: "lengthSq p = 1" and r: "lengthSq r = 1"
  have "lengthSq (add p r) = lengthSq p + 2 * dot p r + lengthSq r"
    by (simp add: lengthSq_def add_def dot_def algebra_simps)
  then have "0 \<le> 2 + 2 * dot p r" using lengthSq_nonneg [of "add p r"] p r by simp
  then show ?thesis by simp
qed

lemma perturbed_unit:
  assumes p: "lengthSq p = 1" and r: "lengthSq r = 1"
  shows "lengthSq (normalize (add p (multiplyScalar r (1 / 5)))) = 1"
proof -
  have "lengthSq (add p (multiplyScalar r (1 / 5)))
      = lengthSq p + (2 / 5) * dot p r + (1 / 25) * lengthSq r"
    by (simp add: lengthSq_def add_def dot_def multiplyScalar_def algebra_simps)
  then have "lengthSq (add p (multiplyScalar r (1 / 5))) = 1 + (2 / 5) * dot p r + 1 / 25"
    using p r by simp
  then have "lengthSq (add p (multiplyScalar r (1 / 5))) \<noteq> 0"
    using dot_lower [OF p r] by simp
  then show ?thesis by (rule lengthSq_normalize)
qed

lemma mutate_cases:
  "mutate rate pts w = Inr w' \<Longrightarrow>
     nextAddr w' = nextAddr w \<and> sset (rnd w') \<subseteq> sset (rnd w)
     \<and> (\<forall>a. a \<notin> set pts \<longrightarrow> mem w' a = mem w a)
     \<and> (unitConfig w pts \<longrightarrow> unitConfig w' pts)"
proof -
  assume m: "mutate rate pts w = Inr w'"
  have s1: "sset (stl (rnd w)) \<subseteq> sset (rnd w)"
    using sset_sdrop_subset [of 1 "rnd w"] by simp
  have s4: "sset (stl (stl (stl (stl (rnd w))))) \<subseteq> sset (rnd w)"
    using sset_sdrop_subset [of 4 "rnd w"] by (simp add: numeral_eq_Suc)
  show ?thesis
  proof (cases "shd (rnd w) < rate")
    case False
    then have "w' = snd (random w)" using m by (simp add: mutate_def case_prod_beta Let_def)
    then show ?thesis using s1 by (simp add: unitConfig_def)
  next
    case True
    define idx where "idx = \<lfloor>shd (stl (rnd w)) * real (length pts)\<rfloor>"
    define w3 where "w3 = snd (randomPointOnSphere (snd (random (snd (random w)))))"
    define rp where "rp = fst (randomPointOnSphere (snd (random (snd (random w)))))"
    have unf: "mutate rate pts w =
        (if 0 \<le> idx \<and> idx < int (length pts) then
           Inr (w3\<lparr>mem := (mem w3)(pts ! nat idx :=
                  normalize (add (mem w3 (pts ! nat idx)) (multiplyScalar rp (1 / 5))))\<rparr>)
         else Inl TypeError)"
      using True by (simp add: mutate_def case_prod_beta Let_def idx_def w3_def rp_def)
    have ok: "0 \<le> idx \<and> idx < int (length pts)"
      using m unf by (auto split: if_splits)
    have w': "w' = w3\<lparr>mem := (mem w3)(pts ! nat idx :=
                  normalize (add (mem w3 (pts ! nat idx)) (multiplyScalar rp (1 / 5))))\<rparr>"
      using m unf ok by simp
    have m3: "mem w3 = mem w" and n3: "nextAddr w3 = nextAddr w"
      and r3: "rnd w3 = stl (stl (stl (stl (rnd w))))"
      by (simp_all add: w3_def)
    have "nat idx < length pts" using ok by linarith
    then have inpts: "pts ! nat idx \<in> set pts" by (rule nth_mem)
    have rpu: "lengthSq rp = 1" by (simp add: rp_def randomPointOnSphere_unit)
    have unit: "unitConfig w pts \<longrightarrow> unitConfig w' pts"
      using inpts rpu by (auto simp: unitConfig_def vlength_unit w' m3 perturbed_unit)
    show ?thesis using unit inpts s4 by (auto simp: w' m3 n3 r3)
  qed
qed


lemma crossover_unit:
  assumes alloc: "set parentA \<union> set parentB \<subseteq> {..<nextAddr w}"
    and cross: "crossover n parentA parentB w = (child, w')"
    and uA: "unitConfig w parentA" and uB: "unitConfig w parentB"
  shows "unitConfig w' child"
proof -
  let ?inh = "inherited (fst (randomPointOnSphere w)) w parentA parentB"
  from crossover_parts [OF alloc cross] obtain m where
    m: "nextAddr w \<le> m" "m \<le> nextAddr w'"
       "map (mem w') [nextAddr w..<m] = map (mem w) ?inh"
       "\<forall>a. m \<le> a \<and> a < nextAddr w' \<longrightarrow> lengthSq (mem w' a) = 1"
    by blast
  have inh: "\<forall>p \<in> set ?inh. lengthSq (mem w p) = 1"
    using uA uB by (auto simp: inherited_def unitConfig_def vlength_unit)
  have len: "length ?inh = m - nextAddr w"
    using arg_cong [OF m(3), of length] by simp
  have "lengthSq (mem w' a) = 1" if a: "a \<in> set child" for a
  proof -
    have r: "nextAddr w \<le> a" "a < nextAddr w'"
      using crossover_child(2) [OF alloc cross] a by auto
    show ?thesis
    proof (cases "a < m")
      case False
      then show ?thesis using m(4) r by simp
    next
      case True
      define k where "k = a - nextAddr w"
      have k: "k < m - nextAddr w" using True r by (simp add: k_def)
      have "map (mem w') [nextAddr w..<m] ! k = mem w' a"
        using k r by (simp add: k_def)
      moreover have "map (mem w) ?inh ! k = mem w (?inh ! k)"
        using k len by simp
      moreover have "?inh ! k \<in> set ?inh" using k len by simp
      ultimately show ?thesis using m(3) inh by metis
    qed
  qed
  then show ?thesis by (simp add: unitConfig_def vlength_unit)
qed

lemma pushRandomPoint_eq:
  "pushRandomPoint i (c, w) =
     (c @ [nextAddr w], snd (alloc (fst (randomPointOnSphere w)) (snd (randomPointOnSphere w))))"
  by (simp add: pushRandomPoint_def case_prod_beta Let_def)

lemma pushRandomPoint_fold:
  "fold pushRandomPoint is (c, w) = (c', w') \<Longrightarrow>
     c' = c @ [nextAddr w..<nextAddr w'] \<and> nextAddr w' = nextAddr w + length is
     \<and> (\<forall>a<nextAddr w. mem w' a = mem w a)
     \<and> (\<forall>a. nextAddr w \<le> a \<and> a < nextAddr w' \<longrightarrow> lengthSq (mem w' a) = 1)
     \<and> rnd w' = sdrop (2 * length is) (rnd w)"
proof (induction "is" arbitrary: c w)
  case Nil
  then show ?case by simp
next
  case (Cons i "is")
  define v where "v = fst (randomPointOnSphere w)"
  define w2 where "w2 = snd (alloc v (snd (randomPointOnSphere w)))"
  have call: "fold pushRandomPoint is (c @ [nextAddr w], w2) = (c', w')"
    using Cons.prems by (simp add: pushRandomPoint_eq v_def w2_def)
  note IH = Cons.IH [OF call]
  have n2: "nextAddr w2 = Suc (nextAddr w)" by (simp add: w2_def)
  have m2: "mem w2 = (mem w)(nextAddr w := v)" by (simp add: w2_def)
  have r2: "rnd w2 = stl (stl (rnd w))" by (simp add: w2_def)
  have unit: "lengthSq v = 1" by (simp add: v_def randomPointOnSphere_unit)
  have le: "Suc (nextAddr w) \<le> nextAddr w'" using IH n2 by simp
  then have upt: "[nextAddr w..<nextAddr w'] = nextAddr w # [Suc (nextAddr w)..<nextAddr w']"
    by (simp add: upt_conv_Cons)
  have "c' = (c @ [nextAddr w]) @ [nextAddr w2..<nextAddr w']" using IH by blast
  then have A: "c' = c @ [nextAddr w..<nextAddr w']"
    by (simp only: n2 upt append_assoc append_Cons append_Nil)
  have B: "nextAddr w' = nextAddr w + length (i # is)" using IH by (simp add: n2)
  have C: "\<forall>a<nextAddr w. mem w' a = mem w a" using IH by (simp add: n2 m2)
  have D: "\<forall>a. nextAddr w \<le> a \<and> a < nextAddr w' \<longrightarrow> lengthSq (mem w' a) = 1"
  proof (intro allI impI)
    fix a assume a: "nextAddr w \<le> a \<and> a < nextAddr w'"
    show "lengthSq (mem w' a) = 1"
    proof (cases "a = nextAddr w")
      case True
      then have "mem w' a = v" using IH by (simp add: n2 m2)
      then show ?thesis using unit by simp
    next
      case False
      then show ?thesis using IH a by (simp add: n2)
    qed
  qed
  have E: "rnd w' = sdrop (2 * length (i # is)) (rnd w)"
    using IH by (simp add: r2)
  show ?case using A B C D E by simp
qed

lemma createRandomConfig_result:
  "createRandomConfig n w = (cfg, w') \<Longrightarrow>
     cfg = [nextAddr w..<nextAddr w + n] \<and> nextAddr w' = nextAddr w + n
     \<and> (\<forall>a<nextAddr w. mem w' a = mem w a)
     \<and> unitConfig w' cfg
     \<and> rnd w' = sdrop (2 * n) (rnd w)"
  using pushRandomPoint_fold [of "[0..<n]" "[]" w cfg w']
  by (auto simp: createRandomConfig_def unitConfig_def vlength_unit)

lemma sqrt_36_25: "sqrt (36/25) = 6/5" by (rule sqrt_rat) simp_all

lemma mutating_mutate:
  "mutate (1 / 5) [0] mutating = Inr (mutating\<lparr>rnd := sconst (1 / 2)\<rparr>)"
  by (simp add: mutate_def mutating_def random_def randomPointOnSphere_def Let_def arccos_0
      multiplyScalar_def add_def normalize_def vlength_def lengthSq_def divideScalar_def
      sqrt_36_25)

text \<open>
  C2. A configuration whose points are on the unit sphere stays on it: after one
  iteration of the local optimizer and after a whole call of it, after \<open>mutate\<close>, and
  the child that \<open>crossover\<close> makes from two such parents is on it too; so are the
  points that \<open>randomPointOnSphere\<close> and \<open>createRandomConfig\<close> make. With exact
  arithmetic the norm is 1, hence within \<open>1e-6\<close> of 1.
\<close>

theorem unit_norm_invariant:
  "(unitConfig w pts \<longrightarrow>
      unitConfig (gdIteration pts lr w) pts \<and> unitConfig (gradientDescent thr pts lr w) pts
      \<and> (\<forall>a \<in> set pts. \<bar>vlength (mem (gdIteration pts lr w) a) - 1\<bar> \<le> 1 / 10 ^ 6)
      \<and> (\<forall>a \<in> set pts. \<bar>vlength (mem (gradientDescent thr pts lr w) a) - 1\<bar> \<le> 1 / 10 ^ 6))
   \<and> (unitConfig w pts \<and> mutate rate pts w = Inr w1 \<longrightarrow>
        unitConfig w1 pts \<and> (\<forall>a \<in> set pts. \<bar>vlength (mem w1 a) - 1\<bar> \<le> 1 / 10 ^ 6))
   \<and> (unitConfig w parentA \<and> unitConfig w parentB
        \<and> set parentA \<union> set parentB \<subseteq> {..<nextAddr w}
        \<and> crossover n parentA parentB w = (child, w2) \<longrightarrow>
        unitConfig w2 child \<and> (\<forall>a \<in> set child. \<bar>vlength (mem w2 a) - 1\<bar> \<le> 1 / 10 ^ 6))
   \<and> vlength (fst (randomPointOnSphere w)) = 1
   \<and> (createRandomConfig n w = (cfg, w3) \<longrightarrow> unitConfig w3 cfg)"
proof -
  have tol: "\<And>w pts. unitConfig w pts \<Longrightarrow> \<forall>a \<in> set pts. \<bar>vlength (mem w a) - 1\<bar> \<le> 1 / 10 ^ 6"
    by (simp add: unitConfig_def)
  have A: "unitConfig w pts \<longrightarrow>
      unitConfig (gdIteration pts lr w) pts \<and> unitConfig (gradientDescent thr pts lr w) pts
      \<and> (\<forall>a \<in> set pts. \<bar>vlength (mem (gdIteration pts lr w) a) - 1\<bar> \<le> 1 / 10 ^ 6)
      \<and> (\<forall>a \<in> set pts. \<bar>vlength (mem (gradientDescent thr pts lr w) a) - 1\<bar> \<le> 1 / 10 ^ 6)"
    using gdIteration_unit gradientDescent_unit tol by blast
  have B: "unitConfig w pts \<and> mutate rate pts w = Inr w1 \<longrightarrow>
        unitConfig w1 pts \<and> (\<forall>a \<in> set pts. \<bar>vlength (mem w1 a) - 1\<bar> \<le> 1 / 10 ^ 6)"
    using mutate_cases [of rate pts w w1] tol by blast
  have C: "unitConfig w parentA \<and> unitConfig w parentB
        \<and> set parentA \<union> set parentB \<subseteq> {..<nextAddr w}
        \<and> crossover n parentA parentB w = (child, w2) \<longrightarrow>
        unitConfig w2 child \<and> (\<forall>a \<in> set child. \<bar>vlength (mem w2 a) - 1\<bar> \<le> 1 / 10 ^ 6)"
    using crossover_unit [of parentA parentB w n child w2] tol by blast
  have D: "vlength (fst (randomPointOnSphere w)) = 1"
    by (simp add: vlength_unit randomPointOnSphere_unit)
  have E: "createRandomConfig n w = (cfg, w3) \<longrightarrow> unitConfig w3 cfg"
    using createRandomConfig_result by blast
  show ?thesis using A B C D E by blast
qed


lemma twoPoints_unit: "unitConfig twoPoints [0, 1]"
  by (simp add: unitConfig_def twoPoints_def vlength_unit lengthSq_def)

lemma mutating_unit: "unitConfig mutating [0]"
  by (simp add: unitConfig_def mutating_def vlength_unit lengthSq_def)

lemma facing_unit: "unitConfig facing [0]" "unitConfig facing [1]"
  by (simp_all add: unitConfig_def facing_def vlength_unit lengthSq_def)

theorem unit_norm_invariant_witness:
  "unitConfig twoPoints [0, 1]
   \<and> unitConfig (gdIteration [0, 1] (16/5) twoPoints) [0, 1]
   \<and> unitConfig (gradientDescent (1 / 10 ^ 8) [0, 1] (16/5) twoPoints) [0, 1]
   \<and> unitConfig mutating [0]
   \<and> mutate (1 / 5) [0] mutating = Inr (mutating\<lparr>rnd := sconst (1 / 2)\<rparr>)
   \<and> unitConfig (mutating\<lparr>rnd := sconst (1 / 2)\<rparr>) [0]
   \<and> unitConfig facing [0] \<and> unitConfig facing [1]
   \<and> set [0] \<union> set [1] \<subseteq> {..<nextAddr facing}
   \<and> crossover 1 [0] [1] facing = ([3], facingCrossed)
   \<and> unitConfig facingCrossed [3]"
proof -
  have a: "unitConfig (gdIteration [0, 1] (16/5) twoPoints) [0, 1]
      \<and> unitConfig (gradientDescent (1 / 10 ^ 8) [0, 1] (16/5) twoPoints) [0, 1]"
    using unit_norm_invariant [of twoPoints "[0, 1]" "16/5" "1 / 10 ^ 8"] twoPoints_unit by blast
  have b: "unitConfig (mutating\<lparr>rnd := sconst (1 / 2)\<rparr>) [0]"
    using unit_norm_invariant [of mutating "[0]" _ _ "1 / 5" "mutating\<lparr>rnd := sconst (1 / 2)\<rparr>"]
      mutating_unit mutating_mutate by blast
  have c: "unitConfig facingCrossed [3]"
    using unit_norm_invariant [of facing _ _ _ _ _ "[0]" "[1]" 1 "[3]" facingCrossed]
      facing_unit facing_alloc facing_crossover by blast
  show ?thesis
    using a b c twoPoints_unit mutating_unit mutating_mutate facing_unit facing_alloc facing_crossover
    by blast
qed

subsection \<open>Edges and groups of the hull\<close>

lemma edgeKey_sym: "edgeKey ka kb = edgeKey kb ka"
  by (auto simp: edgeKey_def)

lemma processEdge_addIfNew:
  "processEdge a b m =
     (if getVertexKey a = getVertexKey b then m else addIfNew (keyedEdge (a, b)) m)"
  by (simp add: processEdge_def addIfNew_def keyedEdge_def Let_def)

lemma fold_processEdge:
  "fold (\<lambda>ab. processEdge (fst ab) (snd ab)) cs m
   = fold addIfNew (map keyedEdge (filter (\<lambda>ab. getVertexKey (fst ab) \<noteq> getVertexKey (snd ab)) cs)) m"
  by (induction cs arbitrary: m) (simp_all add: processEdge_addIfNew)

lemma processTriangle_fold:
  "processTriangle vertices i m = fold (\<lambda>ab. processEdge (fst ab) (snd ab)) (triangleAt vertices i) m"
  by (simp add: processTriangle_def triangleAt_def Let_def)

lemma fold_processTriangle:
  "fold (processTriangle vertices) is m
   = fold (\<lambda>ab. processEdge (fst ab) (snd ab)) (concat (map (triangleAt vertices) is)) m"
  by (induction "is" arbitrary: m) (simp_all add: processTriangle_fold)

lemma collectEdges_keyed: "collectEdges vertices = fold addIfNew (keyedEdges vertices) []"
  by (simp add: collectEdges_def keyedEdges_def fold_processTriangle fold_processEdge)

lemma fold_addIfNew:
  "distinct (map fst m) \<Longrightarrow>
   \<exists>r. fold addIfNew xs m = m @ r \<and> distinct (map fst (m @ r)) \<and> subseq r xs
       \<and> fst ` set r = fst ` set xs - fst ` set m
       \<and> (\<forall>kv \<in> set r. map_of xs (fst kv) = Some (snd kv))"
proof (induction xs arbitrary: m)
  case Nil
  then show ?case by simp
next
  case (Cons x xs)
  show ?case
  proof (cases "mapHas (fst x) m")
    case True
    then have s: "fold addIfNew (x # xs) m = fold addIfNew xs m" by (simp add: addIfNew_def)
    from Cons.IH [OF Cons.prems] obtain r where
      r: "fold addIfNew xs m = m @ r" "distinct (map fst (m @ r))" "subseq r xs"
         "fst ` set r = fst ` set xs - fst ` set m"
         "\<forall>kv \<in> set r. map_of xs (fst kv) = Some (snd kv)"
      by blast
    have k: "fst x \<in> fst ` set m" using True by (simp add: mapHas_def)
    have "fst x \<notin> fst ` set r" unfolding r(4) using k by simp
    then have ne: "\<forall>kv \<in> set r. fst kv \<noteq> fst x" by (metis imageI)
    have A: "\<forall>kv \<in> set r. map_of (x # xs) (fst kv) = Some (snd kv)"
    proof
      fix kv assume kv: "kv \<in> set r"
      then have "fst kv \<noteq> fst x" using ne by simp
      then have "map_of (x # xs) (fst kv) = map_of xs (fst kv)" by (cases x) simp
      then show "map_of (x # xs) (fst kv) = Some (snd kv)" using r(5) kv by simp
    qed
    have B: "fst ` set r = fst ` set (x # xs) - fst ` set m"
      unfolding r(4) using k by auto
    have C: "subseq r (x # xs)" using r(3) by (rule list_emb_Cons)
    have D: "fold addIfNew (x # xs) m = m @ r" using s r(1) by simp
    show ?thesis
      by (intro exI [of _ r] conjI A B C D r(2))
  next
    case False
    then have s: "fold addIfNew (x # xs) m = fold addIfNew xs (m @ [x])" by (simp add: addIfNew_def)
    have k: "fst x \<notin> fst ` set m" using False by (simp add: mapHas_def)
    then have d: "distinct (map fst (m @ [x]))" using Cons.prems by simp
    from Cons.IH [OF d] obtain r where
      r: "fold addIfNew xs (m @ [x]) = (m @ [x]) @ r" "distinct (map fst ((m @ [x]) @ r))"
         "subseq r xs" "fst ` set r = fst ` set xs - fst ` set (m @ [x])"
         "\<forall>kv \<in> set r. map_of xs (fst kv) = Some (snd kv)"
      by blast
    have "fst x \<notin> fst ` set r" unfolding r(4) by simp
    then have ne: "\<forall>kv \<in> set r. fst kv \<noteq> fst x" by (metis imageI)
    have A: "\<forall>kv \<in> set (x # r). map_of (x # xs) (fst kv) = Some (snd kv)"
    proof
      fix kv assume kv: "kv \<in> set (x # r)"
      show "map_of (x # xs) (fst kv) = Some (snd kv)"
      proof (cases "kv = x")
        case True
        then show ?thesis by (cases x) simp
      next
        case False
        then have in_r: "kv \<in> set r" using kv by simp
        then have "fst kv \<noteq> fst x" using ne by simp
        then have "map_of (x # xs) (fst kv) = map_of xs (fst kv)" by (cases x) simp
        then show ?thesis using r(5) in_r by simp
      qed
    qed
    have B: "fst ` set (x # r) = fst ` set (x # xs) - fst ` set m"
    proof -
      have "fst ` set (x # r) = insert (fst x) (fst ` set xs - fst ` set (m @ [x]))"
        using r(4) by simp
      also have "\<dots> = fst ` set (x # xs) - fst ` set m" using k by auto
      finally show ?thesis .
    qed
    have C: "subseq (x # r) (x # xs)" using r(3) by simp
    have D: "fold addIfNew (x # xs) m = m @ (x # r)" using s r(1) by simp
    have E: "distinct (map fst (m @ (x # r)))" using r(2) by simp
    show ?thesis
      by (intro exI [of _ "x # r"] conjI A B C D E)
  qed
qed

lemma collectEdges_unique:
  "distinct (map fst (collectEdges vertices))
   \<and> subseq (collectEdges vertices) (keyedEdges vertices)
   \<and> fst ` set (collectEdges vertices) = fst ` set (keyedEdges vertices)
   \<and> (\<forall>kv \<in> set (collectEdges vertices). map_of (keyedEdges vertices) (fst kv) = Some (snd kv))"
proof -
  have "distinct (map fst ([] :: (string \<times> edge) list))" by simp
  from fold_addIfNew [OF this, of "keyedEdges vertices"] obtain r where
    r: "fold addIfNew (keyedEdges vertices) [] = [] @ r" "distinct (map fst ([] @ r))"
       "subseq r (keyedEdges vertices)"
       "fst ` set r = fst ` set (keyedEdges vertices) - fst ` set ([] :: (string \<times> edge) list)"
       "\<forall>kv \<in> set r. map_of (keyedEdges vertices) (fst kv) = Some (snd kv)"
    by blast
  have c: "collectEdges vertices = r" using r(1) by (simp add: collectEdges_keyed)
  show ?thesis unfolding c using r(2-5) by simp
qed

lemma findGroup_Some:
  "findGroup l gs = Some k \<Longrightarrow>
     k < length gs \<and> fits l (gs ! k) \<and> (\<forall>i < k. \<not> fits l (gs ! i))"
proof (induction gs arbitrary: k)
  case Nil
  then show ?case by simp
next
  case (Cons g gs)
  show ?case
  proof (cases "fits l g")
    case True
    then have "k = 0" using Cons.prems by (simp add: fits_def)
    then show ?thesis using True by simp
  next
    case False
    then obtain k' where k': "findGroup l gs = Some k'" "k = Suc k'"
      using Cons.prems by (auto simp: fits_def)
    note IH = Cons.IH [OF k'(1)]
    have "\<forall>i < Suc k'. \<not> fits l ((g # gs) ! i)"
    proof (intro allI impI)
      fix i assume "i < Suc k'"
      then show "\<not> fits l ((g # gs) ! i)" using IH False by (cases i) auto
    qed
    then show ?thesis using IH k'(2) by simp
  qed
qed

lemma findGroup_None: "findGroup l gs = None \<Longrightarrow> \<forall>g \<in> set gs. \<not> fits l g"
  by (induction gs) (auto simp: fits_def split: if_splits)

lemma placeEdge_first_fit:
  "(\<exists>k < length gs. fits (edge.len e) (gs ! k) \<and> (\<forall>i < k. \<not> fits (edge.len e) (gs ! i))
        \<and> placeEdge e gs = gs[k := (gs ! k)\<lparr>edges := edges (gs ! k) @ [e]\<rparr>])
   \<or> ((\<forall>g \<in> set gs. \<not> fits (edge.len e) g)
        \<and> placeEdge e gs = gs @ [\<lparr>len = edge.len e, edges = [e]\<rparr>])"
proof (cases "findGroup (edge.len e) gs")
  case None
  then show ?thesis using findGroup_None [OF None] by (simp add: placeEdge_def)
next
  case (Some k)
  then show ?thesis using findGroup_Some [OF Some] by (auto simp: placeEdge_def)
qed

lemma groupsWellFormedI:
  assumes "\<And>g. g \<in> set gs \<Longrightarrow> edges g \<noteq> [] \<and> edgeGroup.len g = edge.len (hd (edges g))
          \<and> (\<forall>e \<in> set (edges g). \<bar>edgeGroup.len g - edge.len e\<bar> < 1 / 100)"
    and "\<And>i j. j < length gs \<Longrightarrow> i < j
          \<Longrightarrow> \<not> \<bar>edgeGroup.len (gs ! i) - edgeGroup.len (gs ! j)\<bar> < 1 / 100"
  shows "groupsWellFormed gs"
  unfolding groupsWellFormed_def using assms by blast

lemma groupsWellFormed_group:
  "groupsWellFormed gs \<Longrightarrow> g \<in> set gs \<Longrightarrow>
     edges g \<noteq> [] \<and> edgeGroup.len g = edge.len (hd (edges g))
     \<and> (\<forall>e \<in> set (edges g). \<bar>edgeGroup.len g - edge.len e\<bar> < 1 / 100)"
  unfolding groupsWellFormed_def by blast

lemma groupsWellFormed_apart:
  "groupsWellFormed gs \<Longrightarrow> j < length gs \<Longrightarrow> i < j
     \<Longrightarrow> \<not> \<bar>edgeGroup.len (gs ! i) - edgeGroup.len (gs ! j)\<bar> < 1 / 100"
  unfolding groupsWellFormed_def by blast

lemma placeEdge_wellFormed:
  assumes wf: "groupsWellFormed gs"
  shows "groupsWellFormed (placeEdge e gs)"
proof -
  from placeEdge_first_fit [of gs e] show ?thesis
  proof
    assume "\<exists>k < length gs. fits (edge.len e) (gs ! k) \<and> (\<forall>i < k. \<not> fits (edge.len e) (gs ! i))
        \<and> placeEdge e gs = gs[k := (gs ! k)\<lparr>edges := edges (gs ! k) @ [e]\<rparr>]"
    then obtain k where k: "k < length gs" "fits (edge.len e) (gs ! k)"
        "placeEdge e gs = gs[k := (gs ! k)\<lparr>edges := edges (gs ! k) @ [e]\<rparr>]"
      by blast
    define g' where "g' = (gs ! k)\<lparr>edges := edges (gs ! k) @ [e]\<rparr>"
    have gk: "gs ! k \<in> set gs" using k(1) by simp
    note G = groupsWellFormed_group [OF wf gk]
    have g'1: "edges g' \<noteq> []" and g'l: "edgeGroup.len g' = edgeGroup.len (gs ! k)"
      by (simp_all add: g'_def)
    have hd': "hd (edges g') = hd (edges (gs ! k))" using G by (simp add: g'_def)
    have g'2: "edgeGroup.len g' = edge.len (hd (edges g'))"
      unfolding hd' g'l using G by blast
    have g'3: "\<forall>x \<in> set (edges g'). \<bar>edgeGroup.len g' - edge.len x\<bar> < 1 / 100"
    proof
      fix x assume "x \<in> set (edges g')"
      then have "x \<in> set (edges (gs ! k)) \<or> x = e" by (auto simp: g'_def)
      then show "\<bar>edgeGroup.len g' - edge.len x\<bar> < 1 / 100"
        unfolding g'l using G k(2) by (auto simp: fits_def)
    qed
    have nth: "edgeGroup.len (gs[k := g'] ! i) = edgeGroup.len (gs ! i)" if "i < length gs" for i
      using that g'l by (cases "i = k") simp_all
    have "groupsWellFormed (gs[k := g'])"
    proof (rule groupsWellFormedI)
      fix g assume "g \<in> set (gs[k := g'])"
      then have "g = g' \<or> g \<in> set gs" using set_update_subset_insert by fastforce
      then show "edges g \<noteq> [] \<and> edgeGroup.len g = edge.len (hd (edges g))
          \<and> (\<forall>x \<in> set (edges g). \<bar>edgeGroup.len g - edge.len x\<bar> < 1 / 100)"
        using g'1 g'2 g'3 groupsWellFormed_group [OF wf] by blast
    next
      fix i j assume j: "j < length (gs[k := g'])" and i: "i < j"
      have jl: "j < length gs" using j by simp
      have il: "i < length gs" using i jl by simp
      show "\<not> \<bar>edgeGroup.len (gs[k := g'] ! i) - edgeGroup.len (gs[k := g'] ! j)\<bar> < 1 / 100"
        unfolding nth [OF il] nth [OF jl] using groupsWellFormed_apart [OF wf jl i] .
    qed
    then show ?thesis unfolding k(3) g'_def .
  next
    assume n: "(\<forall>g \<in> set gs. \<not> fits (edge.len e) g)
        \<and> placeEdge e gs = gs @ [\<lparr>len = edge.len e, edges = [e]\<rparr>]"
    define g' where "g' = \<lparr>len = edge.len e, edges = [e]\<rparr>"
    have g'l: "edgeGroup.len g' = edge.len e" and g'e: "edges g' = [e]" by (simp_all add: g'_def)
    have "groupsWellFormed (gs @ [g'])"
    proof (rule groupsWellFormedI)
      fix g assume "g \<in> set (gs @ [g'])"
      then have "g = g' \<or> g \<in> set gs" by auto
      moreover have "edges g' \<noteq> [] \<and> edgeGroup.len g' = edge.len (hd (edges g'))
          \<and> (\<forall>x \<in> set (edges g'). \<bar>edgeGroup.len g' - edge.len x\<bar> < 1 / 100)"
        by (simp add: g'l g'e)
      ultimately show "edges g \<noteq> [] \<and> edgeGroup.len g = edge.len (hd (edges g))
          \<and> (\<forall>x \<in> set (edges g). \<bar>edgeGroup.len g - edge.len x\<bar> < 1 / 100)"
        using groupsWellFormed_group [OF wf] by blast
    next
      fix i j assume j: "j < length (gs @ [g'])" and i: "i < j"
      show "\<not> \<bar>edgeGroup.len ((gs @ [g']) ! i) - edgeGroup.len ((gs @ [g']) ! j)\<bar> < 1 / 100"
      proof (cases "j < length gs")
        case True
        then have "(gs @ [g']) ! i = gs ! i" "(gs @ [g']) ! j = gs ! j"
          using i by (simp_all add: nth_append)
        then show ?thesis using groupsWellFormed_apart [OF wf True i] by simp
      next
        case False
        then have jl: "j = length gs" using j by simp
        then have mem: "gs ! i \<in> set gs" using i by simp
        have nf: "\<not> fits (edge.len e) (gs ! i)" using n mem by blast
        have "(gs @ [g']) ! i = gs ! i" "(gs @ [g']) ! j = g'"
          using i jl by (simp_all add: nth_append)
        then show ?thesis using nf by (simp add: g'l fits_def)
      qed
    qed
    then show ?thesis using n unfolding g'_def by simp
  qed
qed

lemma placeEdge_mset:
  "mset (concat (map edges (placeEdge e gs))) = mset (concat (map edges gs)) + {#e#}"
proof -
  from placeEdge_first_fit [of gs e] show ?thesis
  proof
    assume "\<exists>k < length gs. fits (edge.len e) (gs ! k) \<and> (\<forall>i < k. \<not> fits (edge.len e) (gs ! i))
        \<and> placeEdge e gs = gs[k := (gs ! k)\<lparr>edges := edges (gs ! k) @ [e]\<rparr>]"
    then obtain k where k: "k < length gs"
        "placeEdge e gs = gs[k := (gs ! k)\<lparr>edges := edges (gs ! k) @ [e]\<rparr>]"
      by blast
    have split: "gs = take k gs @ (gs ! k) # drop (Suc k) gs"
      using k(1) by (simp add: id_take_nth_drop)
    have upd: "gs[k := (gs ! k)\<lparr>edges := edges (gs ! k) @ [e]\<rparr>]
        = take k gs @ ((gs ! k)\<lparr>edges := edges (gs ! k) @ [e]\<rparr>) # drop (Suc k) gs"
      using k(1) by (simp add: upd_conv_take_nth_drop)
    have "mset (concat (map edges gs))
        = mset (concat (map edges (take k gs))) + mset (edges (gs ! k))
          + mset (concat (map edges (drop (Suc k) gs)))"
      by (subst split) simp
    moreover have "mset (concat (map edges (gs[k := (gs ! k)\<lparr>edges := edges (gs ! k) @ [e]\<rparr>])))
        = mset (concat (map edges (take k gs))) + (mset (edges (gs ! k)) + {#e#})
          + mset (concat (map edges (drop (Suc k) gs)))"
      by (subst upd) simp
    ultimately show ?thesis by (simp add: k(2))
  next
    assume "(\<forall>g \<in> set gs. \<not> fits (edge.len e) g)
        \<and> placeEdge e gs = gs @ [\<lparr>len = edge.len e, edges = [e]\<rparr>]"
    then show ?thesis by simp
  qed
qed

lemma fold_placeEdge:
  "groupsWellFormed gs \<Longrightarrow>
     groupsWellFormed (fold placeEdge es gs)
     \<and> mset (concat (map edges (fold placeEdge es gs))) = mset (concat (map edges gs)) + mset es"
proof (induction es arbitrary: gs)
  case Nil
  then show ?case by simp
next
  case (Cons e es)
  have wf: "groupsWellFormed (placeEdge e gs)" using Cons.prems by (rule placeEdge_wellFormed)
  show ?case using Cons.IH [OF wf] by (simp add: placeEdge_mset)
qed

lemma digitsOf_0: "digitsOf 0 = ''0''"
  by (simp add: digitsOf.simps digitChar_def)

lemma digitsOf_30000: "digitsOf 30000 = ''30000''"
  by (simp add: digitsOf.simps digitChar_def)

lemma digitsOf_40000: "digitsOf 40000 = ''40000''"
  by (simp add: digitsOf.simps digitChar_def)

lemma toFixed4_digits:
  "nat \<lfloor>\<bar>x\<bar> * 10 ^ 4 + 1 / 2\<rfloor> = n \<Longrightarrow> digitsOf n = ds \<Longrightarrow>
   toFixed 4 x = (if x < 0 then ''-'' else '''')
     @ (let m1 = (if length ds \<le> 4 then replicate (5 - length ds) (CHR ''0'') @ ds else ds)
        in take (length m1 - 4) m1 @ ''.'' @ drop (length m1 - 4) m1)"
  by (simp add: toFixed_def Let_def)

lemma toFixed_0: "toFixed 4 0 = ''0.0000''"
proof -
  have n: "nat \<lfloor>\<bar>0::real\<bar> * 10 ^ 4 + 1 / 2\<rfloor> = 0" by simp
  show ?thesis unfolding toFixed4_digits [OF n digitsOf_0] by (simp add: numeral_eq_Suc)
qed

lemma toFixed_3: "toFixed 4 3 = ''3.0000''"
proof -
  have n: "nat \<lfloor>\<bar>3::real\<bar> * 10 ^ 4 + 1 / 2\<rfloor> = 30000" by simp
  show ?thesis unfolding toFixed4_digits [OF n digitsOf_30000] by (simp add: numeral_eq_Suc)
qed

lemma toFixed_4: "toFixed 4 4 = ''4.0000''"
proof -
  have n: "nat \<lfloor>\<bar>4::real\<bar> * 10 ^ 4 + 1 / 2\<rfloor> = 40000" by simp
  show ?thesis unfolding toFixed4_digits [OF n digitsOf_40000] by (simp add: numeral_eq_Suc)
qed

lemma rectangle_starts: "triangleStarts (rectangleHull ps) = [0, 9]"
  by (simp add: triangleStarts_def rectangleHull_def upt_rec)

lemma rectangle_triangle_0: "triangleAt (rectangleHull ps) 0 = [(cornerA, cornerB), (cornerB, cornerC), (cornerC, cornerA)]"
  by (simp add: triangleAt_def rectangleHull_def coordAt_def cornerA_def cornerB_def cornerC_def Let_def)

lemma rectangle_triangle_9: "triangleAt (rectangleHull ps) 9 = [(cornerA, cornerC), (cornerC, cornerD), (cornerD, cornerA)]"
  by (simp add: triangleAt_def rectangleHull_def coordAt_def cornerA_def cornerC_def cornerD_def Let_def)

lemma cornerA_key: "getVertexKey cornerA = ''0.0000,0.0000,0.0000''"
  by (simp add: getVertexKey_def cornerA_def toFixed_0)

lemma cornerB_key: "getVertexKey cornerB = ''3.0000,0.0000,0.0000''"
  by (simp add: getVertexKey_def cornerB_def toFixed_0 toFixed_3)

lemma cornerC_key: "getVertexKey cornerC = ''3.0000,4.0000,0.0000''"
  by (simp add: getVertexKey_def cornerC_def toFixed_0 toFixed_3 toFixed_4)

lemma cornerD_key: "getVertexKey cornerD = ''0.0000,4.0000,0.0000''"
  by (simp add: getVertexKey_def cornerD_def toFixed_0 toFixed_4)

lemma sqrt_9: "sqrt 9 = 3" by (rule sqrt_rat) simp_all

lemma sqrt_16: "sqrt 16 = 4" by (rule sqrt_rat) simp_all

lemma sqrt_25: "sqrt 25 = 5" by (rule sqrt_rat) simp_all

lemma rectangle_distances:
  "distanceTo cornerA cornerB = 3" "distanceTo cornerB cornerC = 4" "distanceTo cornerC cornerA = 5"
  "distanceTo cornerA cornerC = 5" "distanceTo cornerC cornerD = 3" "distanceTo cornerD cornerA = 4"
  by (simp_all add: distanceTo_def distanceToSquared_def cornerA_def cornerB_def cornerC_def
      cornerD_def sqrt_9 sqrt_16 sqrt_25)

lemma rectangle_keyedEdges: "keyedEdges (rectangleHull ps) =
   [(''0.0000,0.0000,0.0000|3.0000,0.0000,0.0000'', edgeAB),
    (''3.0000,0.0000,0.0000|3.0000,4.0000,0.0000'', edgeBC),
    (''0.0000,0.0000,0.0000|3.0000,4.0000,0.0000'', edgeCA),
    (''0.0000,0.0000,0.0000|3.0000,4.0000,0.0000'', edgeAC),
    (''0.0000,4.0000,0.0000|3.0000,4.0000,0.0000'', edgeCD),
    (''0.0000,0.0000,0.0000|0.0000,4.0000,0.0000'', edgeDA)]"
  by (simp add: keyedEdges_def rectangle_starts rectangle_triangle_0 rectangle_triangle_9 keyedEdge_def cornerA_key cornerB_key cornerC_key cornerD_key edgeKey_def rectangle_distances
      edgeAB_def edgeBC_def edgeCA_def edgeAC_def edgeCD_def edgeDA_def)

lemma rectangle_collected: "map snd (collectEdges (rectangleHull ps)) = [edgeAB, edgeBC, edgeCA, edgeCD, edgeDA]"
  by (simp add: collectEdges_keyed rectangle_keyedEdges addIfNew_def mapHas_def)

lemma rectangle_grouped: "fold placeEdge [edgeAB, edgeBC, edgeCA, edgeCD, edgeDA] []
   = [\<lparr>len = 3, edges = [edgeAB, edgeCD]\<rparr>, \<lparr>len = 4, edges = [edgeBC, edgeDA]\<rparr>,
      \<lparr>len = 5, edges = [edgeCA]\<rparr>]"
  by (simp add: placeEdge_def edgeAB_def edgeBC_def edgeCA_def edgeCD_def edgeDA_def)

lemma toFixed_rounded:
  "roundedCoordinate x = roundedCoordinate y \<Longrightarrow> toFixed 4 x = toFixed 4 y"
  unfolding roundedCoordinate_def toFixed_def by simp

lemma getVertexKey_rounded:
  assumes "roundedCoordinate (vx a) = roundedCoordinate (vx b)"
    and "roundedCoordinate (vy a) = roundedCoordinate (vy b)"
    and "roundedCoordinate (vz a) = roundedCoordinate (vz b)"
  shows "getVertexKey a = getVertexKey b"
  unfolding getVertexKey_def toFixed_rounded [OF assms(1)] toFixed_rounded [OF assms(2)]
    toFixed_rounded [OF assms(3)] ..

lemma calculateEdgeGroups_unfold:
  "4 \<le> length ps \<Longrightarrow>
   calculateEdgeGroups (Some cg) ps
     = sort_key edgeGroup.len (fold placeEdge (map snd (collectEdges (cg ps))) [])"
  unfolding calculateEdgeGroups_def Let_def by simp

lemma groupsWellFormed_Nil: "groupsWellFormed []"
  by (simp add: groupsWellFormed_def)

lemma digitChar_digit:
  assumes "d < 10"
  shows "digitChar d \<in> keyChars \<and> digitValue (digitChar d) = d"
proof -
  from assms have "d = 0 \<or> d = 1 \<or> d = 2 \<or> d = 3 \<or> d = 4 \<or> d = 5 \<or> d = 6 \<or> d = 7 \<or> d = 8 \<or> d = 9"
    by presburger
  then show ?thesis
    by (elim disjE) (simp_all add: digitChar_def digitValue_def keyChars_def)
qed

lemma digitsValue_snoc: "digitsValue (ds @ [c]) = 10 * digitsValue ds + digitValue c"
  by (simp add: digitsValue_def)

lemma digitsOf_digits: "set (digitsOf n) \<subseteq> keyChars \<and> digitsValue (digitsOf n) = n"
proof (induction n rule: digitsOf.induct)
  case (1 n)
  show ?case
  proof (cases "n < 10")
    case True
    then have "digitsOf n = [digitChar n]" by (subst digitsOf.simps) simp
    then show ?thesis using digitChar_digit [OF True] by (simp add: digitsValue_def)
  next
    case False
    then have d: "digitsOf n = digitsOf (n div 10) @ [digitChar (n mod 10)]"
      by (subst digitsOf.simps) simp
    have m: "n mod 10 < 10" by simp
    show ?thesis
      using 1 [OF False] digitChar_digit [OF m] unfolding d digitsValue_snoc by simp
  qed
qed

lemma digitsOf_nonempty: "digitsOf n \<noteq> []"
  by (subst digitsOf.simps) simp

lemma foldl_zeros: "foldl (\<lambda>a c. 10 * a + digitValue c) 0 (replicate k (CHR ''0'')) = 0"
  by (induction k) (simp_all add: digitValue_def)

lemma digitsValue_zeros: "digitsValue (replicate k (CHR ''0'') @ ds) = digitsValue ds"
  by (simp add: digitsValue_def foldl_zeros)

lemma split_at_unique:
  "c \<notin> set xs \<Longrightarrow> c \<notin> set xs' \<Longrightarrow> xs @ c # ys = xs' @ c # ys' \<Longrightarrow> xs = xs' \<and> ys = ys'"
proof (induction xs arbitrary: xs')
  case Nil
  then show ?case by (cases xs') auto
next
  case (Cons x xs)
  then show ?case by (cases xs') auto
qed

lemma toFixed4_shape:
  "\<exists>ip fp. toFixed 4 x = (if x < 0 then ''-'' else '''') @ ip @ ''.'' @ fp
     \<and> ip \<noteq> [] \<and> set ip \<subseteq> keyChars \<and> set fp \<subseteq> keyChars
     \<and> digitsValue (ip @ fp) = nat \<lfloor>\<bar>x\<bar> * 10 ^ 4 + 1 / 2\<rfloor>"
proof -
  define n where "n = nat \<lfloor>\<bar>x\<bar> * 10 ^ 4 + 1 / 2\<rfloor>"
  define ds where "ds = digitsOf n"
  define m1 where "m1 = (if length ds \<le> 4 then replicate (5 - length ds) (CHR ''0'') @ ds else ds)"
  have t: "toFixed 4 x = (if x < 0 then ''-'' else '''')
      @ take (length m1 - 4) m1 @ ''.'' @ drop (length m1 - 4) m1"
    using toFixed4_digits [OF n_def [symmetric] ds_def [symmetric]]
    by (simp add: Let_def m1_def)
  have dk: "set ds \<subseteq> keyChars" and dv: "digitsValue ds = n"
    using digitsOf_digits [of n] by (simp_all add: ds_def)
  have zero: "CHR ''0'' \<in> keyChars" by (simp add: keyChars_def)
  have mk: "set m1 \<subseteq> keyChars" using dk zero by (auto simp: m1_def)
  have mv: "digitsValue m1 = n" using dv by (simp add: m1_def digitsValue_zeros)
  have ml: "4 < length m1" by (simp add: m1_def)
  have a: "take (length m1 - 4) m1 \<noteq> []" using ml by auto
  have b: "set (take (length m1 - 4) m1) \<subseteq> keyChars"
    using mk set_take_subset [of "length m1 - 4" m1] by blast
  have c: "set (drop (length m1 - 4) m1) \<subseteq> keyChars"
    using mk set_drop_subset [of "length m1 - 4" m1] by blast
  have d: "digitsValue (take (length m1 - 4) m1 @ drop (length m1 - 4) m1) = n"
    using mv by simp
  show ?thesis
    unfolding n_def [symmetric]
    by (intro exI [of _ "take (length m1 - 4) m1"] exI [of _ "drop (length m1 - 4) m1"]
        conjI t a b c d)
qed

lemma keyChars_others:
  "CHR ''-'' \<notin> keyChars" "CHR ''.'' \<notin> keyChars" "CHR '','' \<notin> keyChars" "CHR ''|'' \<notin> keyChars"
  by (simp_all add: keyChars_def)

lemma toFixed4_chars:
  "CHR '','' \<notin> set (toFixed 4 x)" "CHR ''|'' \<notin> set (toFixed 4 x)"
proof -
  from toFixed4_shape [of x] obtain ip fp where
    t: "toFixed 4 x = (if x < 0 then ''-'' else '''') @ ip @ ''.'' @ fp"
    and k: "set ip \<subseteq> keyChars" "set fp \<subseteq> keyChars"
    by blast
  show "CHR '','' \<notin> set (toFixed 4 x)" "CHR ''|'' \<notin> set (toFixed 4 x)"
    using k keyChars_others unfolding t by auto
qed

lemma toFixed4_inj:
  assumes e: "toFixed 4 x = toFixed 4 y"
  shows "roundedCoordinate x = roundedCoordinate y"
proof -
  from toFixed4_shape [of x] obtain ip fp where
    tx: "toFixed 4 x = (if x < 0 then ''-'' else '''') @ ip @ ''.'' @ fp"
    and ix: "ip \<noteq> []" and kx: "set ip \<subseteq> keyChars" "set fp \<subseteq> keyChars"
    and vx: "digitsValue (ip @ fp) = nat \<lfloor>\<bar>x\<bar> * 10 ^ 4 + 1 / 2\<rfloor>"
    by blast
  from toFixed4_shape [of y] obtain iq fq where
    ty: "toFixed 4 y = (if y < 0 then ''-'' else '''') @ iq @ ''.'' @ fq"
    and iy: "iq \<noteq> []" and ky: "set iq \<subseteq> keyChars" "set fq \<subseteq> keyChars"
    and vy: "digitsValue (iq @ fq) = nat \<lfloor>\<bar>y\<bar> * 10 ^ 4 + 1 / 2\<rfloor>"
    by blast
  have hx: "hd ip \<noteq> CHR ''-''" using ix kx(1) keyChars_others(1) by (cases ip) auto
  have hy: "hd iq \<noteq> CHR ''-''" using iy ky(1) keyChars_others(1) by (cases iq) auto
  have eq: "(if x < 0 then ''-'' else '''') @ ip @ ''.'' @ fp
          = (if y < 0 then ''-'' else '''') @ iq @ ''.'' @ fq"
    using e tx ty by simp
  have sign: "(x < 0) = (y < 0)"
  proof (rule ccontr)
    assume "(x < 0) \<noteq> (y < 0)"
    then consider "x < 0" "\<not> y < 0" | "\<not> x < 0" "y < 0" by blast
    then show False
    proof cases
      case 1
      then have "CHR ''-'' = hd (iq @ ''.'' @ fq)" using eq by (cases iq) auto
      then show False using hy iy by simp
    next
      case 2
      then have "hd (ip @ ''.'' @ fp) = CHR ''-''" using eq by (cases ip) auto
      then show False using hx ix by simp
    qed
  qed
  have dots: "CHR ''.'' \<notin> set ip" "CHR ''.'' \<notin> set iq"
    using kx(1) ky(1) keyChars_others(2) by blast+
  have "ip @ CHR ''.'' # fp = iq @ CHR ''.'' # fq" using eq sign by (simp split: if_splits)
  then have "ip = iq \<and> fp = fq" by (rule split_at_unique [OF dots])
  then have "nat \<lfloor>\<bar>x\<bar> * 10 ^ 4 + 1 / 2\<rfloor> = nat \<lfloor>\<bar>y\<bar> * 10 ^ 4 + 1 / 2\<rfloor>"
    using vx vy by simp
  moreover have "0 \<le> \<lfloor>\<bar>x\<bar> * 10 ^ 4 + 1 / 2\<rfloor>" "0 \<le> \<lfloor>\<bar>y\<bar> * 10 ^ 4 + 1 / 2\<rfloor>"
    by simp_all
  ultimately have "\<lfloor>\<bar>x\<bar> * 10 ^ 4 + 1 / 2\<rfloor> = \<lfloor>\<bar>y\<bar> * 10 ^ 4 + 1 / 2\<rfloor>"
    by linarith
  then show ?thesis using sign by (simp add: roundedCoordinate_def)
qed

lemma getVertexKey_inj:
  assumes "getVertexKey a = getVertexKey b"
  shows "roundedCoordinate (vx a) = roundedCoordinate (vx b)
       \<and> roundedCoordinate (vy a) = roundedCoordinate (vy b)
       \<and> roundedCoordinate (vz a) = roundedCoordinate (vz b)"
proof -
  have "toFixed 4 (vx a) @ CHR '','' # (toFixed 4 (vy a) @ CHR '','' # toFixed 4 (vz a))
      = toFixed 4 (vx b) @ CHR '','' # (toFixed 4 (vy b) @ CHR '','' # toFixed 4 (vz b))"
    using assms by (simp add: getVertexKey_def)
  then have x: "toFixed 4 (vx a) = toFixed 4 (vx b)"
    and r: "toFixed 4 (vy a) @ CHR '','' # toFixed 4 (vz a)
      = toFixed 4 (vy b) @ CHR '','' # toFixed 4 (vz b)"
    using split_at_unique [OF toFixed4_chars(1) toFixed4_chars(1)] by blast+
  have "toFixed 4 (vy a) = toFixed 4 (vy b) \<and> toFixed 4 (vz a) = toFixed 4 (vz b)"
    using r by (rule split_at_unique [OF toFixed4_chars(1) toFixed4_chars(1)])
  with x have "toFixed 4 (vx a) = toFixed 4 (vx b) \<and> toFixed 4 (vy a) = toFixed 4 (vy b)
      \<and> toFixed 4 (vz a) = toFixed 4 (vz b)"
    by simp
  then show ?thesis using toFixed4_inj by blast
qed

lemma getVertexKey_bar: "CHR ''|'' \<notin> set (getVertexKey v)"
  by (simp add: getVertexKey_def toFixed4_chars)

lemma edgeKey_inj:
  assumes "CHR ''|'' \<notin> set ka" "CHR ''|'' \<notin> set kb" "CHR ''|'' \<notin> set kc" "CHR ''|'' \<notin> set kd"
  shows "edgeKey ka kb = edgeKey kc kd \<longleftrightarrow> {ka, kb} = {kc, kd}"
proof
  assume "edgeKey ka kb = edgeKey kc kd"
  then show "{ka, kb} = {kc, kd}"
    using assms by (auto simp: edgeKey_def split: if_splits dest!: split_at_unique [rotated 2])
next
  assume "{ka, kb} = {kc, kd}"
  then have "(ka = kc \<and> kb = kd) \<or> (ka = kd \<and> kb = kc)" by (auto simp: doubleton_eq_iff)
  then show "edgeKey ka kb = edgeKey kc kd" using edgeKey_sym by auto
qed

text \<open>
  C7. For at least 4 points and a loaded hull library: two vertices have the same key
  exactly when their three coordinates, rounded to 4 decimal places, are the same (with
  the sign: a negative coordinate that rounds to 0 is written \<open>-0.0000\<close>); the key of an
  edge does not depend on the order of its two ends, and two edges have the same key
  exactly when they have the same unordered pair of vertex keys; the unique edges have
  different keys, are listed
  in the order of discovery, cover every key, and each is the first edge discovered with
  its key. An edge is put into the first group, in the order of creation, whose
  representative length differs from its length by less than \<open>1e-2\<close>, and starts a new
  group at the end when there is none; so every group's length is that of its first
  edge, and every unique edge is in exactly one group. The result is these groups sorted
  by ascending length.
\<close>

theorem calculateEdgeGroups_groups:
  "4 \<le> length ps \<Longrightarrow>
     (getVertexKey a = getVertexKey b
        \<longleftrightarrow> roundedCoordinate (vx a) = roundedCoordinate (vx b)
          \<and> roundedCoordinate (vy a) = roundedCoordinate (vy b)
          \<and> roundedCoordinate (vz a) = roundedCoordinate (vz b))
   \<and> edgeKey ka kb = edgeKey kb ka
   \<and> (edgeKey (getVertexKey a) (getVertexKey b) = edgeKey (getVertexKey c) (getVertexKey d)
        \<longleftrightarrow> {getVertexKey a, getVertexKey b} = {getVertexKey c, getVertexKey d})
   \<and> distinct (map fst (collectEdges (cg ps)))
   \<and> subseq (collectEdges (cg ps)) (keyedEdges (cg ps))
   \<and> fst ` set (collectEdges (cg ps)) = fst ` set (keyedEdges (cg ps))
   \<and> (\<forall>kv \<in> set (collectEdges (cg ps)). map_of (keyedEdges (cg ps)) (fst kv) = Some (snd kv))
   \<and> ((\<exists>k < length gs. fits (edge.len e) (gs ! k) \<and> (\<forall>i < k. \<not> fits (edge.len e) (gs ! i))
            \<and> placeEdge e gs = gs[k := (gs ! k)\<lparr>edges := edges (gs ! k) @ [e]\<rparr>])
        \<or> ((\<forall>g \<in> set gs. \<not> fits (edge.len e) g)
            \<and> placeEdge e gs = gs @ [\<lparr>len = edge.len e, edges = [e]\<rparr>]))
   \<and> groupsWellFormed (fold placeEdge (map snd (collectEdges (cg ps))) [])
   \<and> mset (concat (map edges (fold placeEdge (map snd (collectEdges (cg ps))) [])))
       = mset (map snd (collectEdges (cg ps)))
   \<and> calculateEdgeGroups (Some cg) ps
       = sort_key edgeGroup.len (fold placeEdge (map snd (collectEdges (cg ps))) [])
   \<and> sorted (map edgeGroup.len (calculateEdgeGroups (Some cg) ps))
   \<and> mset (calculateEdgeGroups (Some cg) ps)
       = mset (fold placeEdge (map snd (collectEdges (cg ps))) [])"
proof -
  assume four: "4 \<le> length ps"
  note U = calculateEdgeGroups_unfold [OF four, of cg]
  note F = fold_placeEdge [OF groupsWellFormed_Nil, of "map snd (collectEdges (cg ps))"]
  have A: "getVertexKey a = getVertexKey b
        \<longleftrightarrow> roundedCoordinate (vx a) = roundedCoordinate (vx b)
          \<and> roundedCoordinate (vy a) = roundedCoordinate (vy b)
          \<and> roundedCoordinate (vz a) = roundedCoordinate (vz b)"
    using getVertexKey_rounded [of a b] getVertexKey_inj [of a b] by blast
  have B: "edgeKey (getVertexKey a) (getVertexKey b) = edgeKey (getVertexKey c) (getVertexKey d)
        \<longleftrightarrow> {getVertexKey a, getVertexKey b} = {getVertexKey c, getVertexKey d}"
    by (rule edgeKey_inj [OF getVertexKey_bar getVertexKey_bar getVertexKey_bar getVertexKey_bar])
  have G: "mset (concat (map edges (fold placeEdge (map snd (collectEdges (cg ps))) [])))
       = mset (map snd (collectEdges (cg ps)))"
    using F by simp
  have S: "sorted (map edgeGroup.len (calculateEdgeGroups (Some cg) ps))"
    unfolding U by simp
  have M: "mset (calculateEdgeGroups (Some cg) ps)
       = mset (fold placeEdge (map snd (collectEdges (cg ps))) [])"
    unfolding U by simp
  show ?thesis
    by (intro conjI A edgeKey_sym B collectEdges_unique [THEN conjunct1]
        collectEdges_unique [THEN conjunct2, THEN conjunct1]
        collectEdges_unique [THEN conjunct2, THEN conjunct2, THEN conjunct1]
        collectEdges_unique [THEN conjunct2, THEN conjunct2, THEN conjunct2]
        placeEdge_first_fit F [THEN conjunct1] G U S M)
qed

lemma rectangle_four: "4 \<le> length rectangle"
  by (simp add: rectangle_def)

lemma rectangle_groups:
  "calculateEdgeGroups (Some rectangleHull) rectangle
   = [\<lparr>len = 3, edges = [edgeAB, edgeCD]\<rparr>, \<lparr>len = 4, edges = [edgeBC, edgeDA]\<rparr>,
      \<lparr>len = 5, edges = [edgeCA]\<rparr>]"
  unfolding calculateEdgeGroups_unfold [OF rectangle_four] rectangle_collected rectangle_grouped by simp

theorem calculateEdgeGroups_groups_witness:
  "4 \<le> length rectangle
   \<and> calculateEdgeGroups (Some rectangleHull) rectangle
       = [\<lparr>len = 3, edges = [edgeAB, edgeCD]\<rparr>, \<lparr>len = 4, edges = [edgeBC, edgeDA]\<rparr>,
          \<lparr>len = 5, edges = [edgeCA]\<rparr>]
   \<and> sorted (map edgeGroup.len (calculateEdgeGroups (Some rectangleHull) rectangle))
   \<and> groupsWellFormed (fold placeEdge (map snd (collectEdges (rectangleHull rectangle))) [])
   \<and> getVertexKey cornerA \<noteq> getVertexKey cornerB
   \<and> edgeKey (getVertexKey cornerA) (getVertexKey cornerB)
       = edgeKey (getVertexKey cornerB) (getVertexKey cornerA)"
proof -
  note T = calculateEdgeGroups_groups [where ps = rectangle and cg = rectangleHull
      and a = cornerA and b = cornerB and c = cornerB and d = cornerA
      and ka = "[]" and kb = "[]" and gs = "[]" and e = edgeAB,
      OF rectangle_four]
  have s: "sorted (map edgeGroup.len (calculateEdgeGroups (Some rectangleHull) rectangle))"
    by (rule T [THEN conjunct2, THEN conjunct2, THEN conjunct2, THEN conjunct2, THEN conjunct2, THEN conjunct2, THEN conjunct2, THEN conjunct2, THEN conjunct2, THEN conjunct2, THEN conjunct2, THEN conjunct1])
  have g: "groupsWellFormed (fold placeEdge (map snd (collectEdges (rectangleHull rectangle))) [])"
    by (rule T [THEN conjunct2, THEN conjunct2, THEN conjunct2, THEN conjunct2, THEN conjunct2, THEN conjunct2, THEN conjunct2, THEN conjunct2, THEN conjunct1])
  have r: "roundedCoordinate (vx cornerA) \<noteq> roundedCoordinate (vx cornerB)"
    by (simp add: roundedCoordinate_def cornerA_def cornerB_def)
  have k: "getVertexKey cornerA \<noteq> getVertexKey cornerB"
    using T [THEN conjunct1] r by blast
  have p: "{getVertexKey cornerA, getVertexKey cornerB} = {getVertexKey cornerB, getVertexKey cornerA}"
    by (rule insert_commute)
  have ek: "edgeKey (getVertexKey cornerA) (getVertexKey cornerB)
       = edgeKey (getVertexKey cornerB) (getVertexKey cornerA)"
    using T [THEN conjunct2, THEN conjunct2, THEN conjunct1] p by (rule iffD2)
  show ?thesis
    by (intro conjI rectangle_four rectangle_groups s g k ek)
qed

subsection \<open>The population, the best record and the recombination pass\<close>

lemma rngOk_shd: "rngOk w \<Longrightarrow> 0 \<le> shd (rnd w) \<and> shd (rnd w) < 1"
  by (simp add: rngOk_def shd_sset)

lemma rngOk_subset: "rngOk w \<Longrightarrow> sset (rnd w') \<subseteq> sset (rnd w) \<Longrightarrow> rngOk w'"
  by (auto simp: rngOk_def)

lemma rngOk_random: "rngOk w \<Longrightarrow> rngOk (snd (random w))"
  using stl_sset by (fastforce simp: rngOk_def)

lemma random_index:
  assumes "0 \<le> r" "r < 1" "0 < n"
  shows "0 \<le> \<lfloor>r * real n\<rfloor> \<and> \<lfloor>r * real n\<rfloor> < int n"
proof -
  have "0 \<le> r * real n" using assms by simp
  then have a: "0 \<le> \<lfloor>r * real n\<rfloor>" by simp
  have "r * real n < 1 * real n" using assms by (intro mult_strict_right_mono) simp_all
  then have "r * real n < real_of_int (int n)" by simp
  then have b: "\<lfloor>r * real n\<rfloor> < int n" by (simp add: floor_less_iff)
  show ?thesis using a b by simp
qed

lemma tournamentRound_ok:
  assumes ne: "pop \<noteq> []" and rng: "rngOk w"
    and best: "\<forall>b. best = Some b \<longrightarrow> b \<in> set pop"
  shows "\<exists>ind. tournamentRound pop (best, w) = Inr (Some ind, snd (random w)) \<and> ind \<in> set pop"
proof -
  define idx where "idx = \<lfloor>shd (rnd w) * real (length pop)\<rfloor>"
  have i: "0 \<le> idx \<and> idx < int (length pop)"
    unfolding idx_def using random_index rngOk_shd [OF rng] ne by simp
  then have n: "nat idx < length pop" by linarith
  then have m: "pop ! nat idx \<in> set pop" by (rule nth_mem)
  have r: "random w = (shd (rnd w), snd (random w))" by (simp add: random_def)
  show ?thesis
  proof (cases best)
    case None
    then have "tournamentRound pop (best, w) = Inr (Some (pop ! nat idx), snd (random w))"
      using i by (simp add: tournamentRound_def Let_def case_prod_beta idx_def)
    then show ?thesis using m by blast
  next
    case (Some b)
    then have "tournamentRound pop (best, w)
        = Inr (if energy (pop ! nat idx) < energy b then Some (pop ! nat idx) else Some b,
               snd (random w))"
      using i by (simp add: tournamentRound_def Let_def case_prod_beta idx_def)
    then show ?thesis using m best Some by (cases "energy (pop ! nat idx) < energy b") auto
  qed
qed

lemma tournamentSelect_ok:
  assumes ne: "pop \<noteq> []" and rng: "rngOk w"
  shows "\<exists>ind w'. tournamentSelect pop w = Inr (Some ind, w') \<and> ind \<in> set pop
      \<and> mem w' = mem w \<and> nextAddr w' = nextAddr w \<and> rnd w' = stl (stl (stl (rnd w)))"
proof -
  define w1 where "w1 = snd (random w)"
  define w2 where "w2 = snd (random w1)"
  define w3 where "w3 = snd (random w2)"
  have r1: "rngOk w1" and r2: "rngOk w2"
    using rng by (simp_all add: w1_def w2_def rngOk_random)
  obtain i1 where 1: "tournamentRound pop (None, w) = Inr (Some i1, w1)" "i1 \<in> set pop"
    using tournamentRound_ok [OF ne rng, of None] unfolding w1_def by auto
  obtain i2 where 2: "tournamentRound pop (Some i1, w1) = Inr (Some i2, w2)" "i2 \<in> set pop"
    using tournamentRound_ok [OF ne r1, of "Some i1"] 1(2) unfolding w2_def by auto
  obtain i3 where 3: "tournamentRound pop (Some i2, w2) = Inr (Some i3, w3)" "i3 \<in> set pop"
    using tournamentRound_ok [OF ne r2, of "Some i2"] 2(2) unfolding w3_def by auto
  have "tournamentSelect pop w = Inr (Some i3, w3)"
    by (simp add: tournamentSelect_def bindE_def 1 2 3)
  moreover have "mem w3 = mem w" "nextAddr w3 = nextAddr w" "rnd w3 = stl (stl (stl (rnd w)))"
    by (simp_all add: w3_def w2_def w1_def)
  ultimately show ?thesis using 3(2) by blast
qed

lemma tournamentRound_member:
  assumes "tournamentRound pop (best, w) = Inr (Some ind, w')"
    and "\<forall>b. best = Some b \<longrightarrow> b \<in> set pop"
  shows "ind \<in> set pop"
proof -
  define idx where "idx = \<lfloor>shd (rnd w) * real (length pop)\<rfloor>"
  have nthm: "0 \<le> idx \<and> idx < int (length pop) \<Longrightarrow> pop ! nat idx \<in> set pop"
  proof -
    assume "0 \<le> idx \<and> idx < int (length pop)"
    then have "nat idx < length pop" by linarith
    then show ?thesis by (rule nth_mem)
  qed
  show ?thesis
    using assms nthm
    by (auto simp: tournamentRound_def Let_def case_prod_beta idx_def [symmetric]
        split: option.splits if_splits)
qed

lemma tournamentSelect_member:
  assumes "tournamentSelect pop w = Inr (Some ind, w')"
  shows "ind \<in> set pop"
proof -
  from assms obtain b1 w1 b2 w2 where
    1: "tournamentRound pop (None, w) = Inr (b1, w1)" and
    2: "tournamentRound pop (b1, w1) = Inr (b2, w2)" and
    3: "tournamentRound pop (b2, w2) = Inr (Some ind, w')"
    by (auto simp: tournamentSelect_def bindE_def split: sum.splits)
  have m1: "\<forall>b. b1 = Some b \<longrightarrow> b \<in> set pop"
    using tournamentRound_member [of pop None w _ w1] 1 by auto
  have m2: "\<forall>b. b2 = Some b \<longrightarrow> b \<in> set pop"
    using tournamentRound_member [of pop b1 w1 _ w2] 2 m1 by auto
  show ?thesis using tournamentRound_member [OF 3 m2] .
qed

lemma mutate_ok:
  assumes rng: "rngOk w" and ne: "pts \<noteq> []"
  shows "\<exists>w'. mutate rate pts w = Inr w'"
proof (cases "shd (rnd w) < rate")
  case False
  then show ?thesis by (simp add: mutate_def case_prod_beta Let_def)
next
  case True
  define idx where "idx = \<lfloor>shd (stl (rnd w)) * real (length pts)\<rfloor>"
  have "rngOk (snd (random w))" using rng by (rule rngOk_random)
  from rngOk_shd [OF this] have "0 \<le> shd (stl (rnd w)) \<and> shd (stl (rnd w)) < 1" by simp
  then have "0 \<le> idx \<and> idx < int (length pts)"
    unfolding idx_def using random_index ne by simp
  then show ?thesis
    using True by (simp add: mutate_def case_prod_beta Let_def idx_def)
qed

lemma clonePoint_inherit: "clonePoint = inheritPoint (\<lambda>_. True)"
  by (rule ext, rule ext) (simp add: clonePoint_def inheritPoint_def case_prod_beta Let_def)

lemma clonePoints_result:
  assumes al: "set pts \<subseteq> {..<nextAddr w}" and cl: "clonePoints pts w = (copy, w')"
  shows "copy = [nextAddr w..<nextAddr w'] \<and> nextAddr w' = nextAddr w + length pts
     \<and> rnd w' = rnd w \<and> (\<forall>a<nextAddr w. mem w' a = mem w a)
     \<and> map (mem w') copy = map (mem w) pts"
proof -
  have f: "fold (inheritPoint (\<lambda>_. True)) pts ([], w) = (copy, w')"
    using cl by (simp add: clonePoints_def clonePoint_inherit)
  note I = inheritPoint_fold [OF al f]
  have c: "copy = [nextAddr w..<nextAddr w']" using I by simp
  have m: "map (mem w') copy = map (mem w) pts" using I c by simp
  have "length (map (mem w') copy) = length pts" using m by simp
  then have "nextAddr w' - nextAddr w = length pts" using c by simp
  moreover have "nextAddr w \<le> nextAddr w'" using I by blast
  ultimately have n: "nextAddr w' = nextAddr w + length pts" by linarith
  show ?thesis using I c m n by simp
qed

lemma sort_key_head_min:
  "sort_key f xs = y # ys \<Longrightarrow> y \<in> set xs \<and> (\<forall>x \<in> set xs. f y \<le> f x)"
proof -
  assume a: "sort_key f xs = y # ys"
  have s: "sorted (map f (y # ys))" using sorted_sort_key [of f xs] a by simp
  have e: "set xs = set (y # ys)" using set_sort [of f xs] a by simp
  show ?thesis using s e by auto
qed

lemma popAddrs_sort: "popAddrs (sort_key f pop) = popAddrs pop"
  by (simp add: popAddrs_def)

lemma lessNum_mono: "lessNum a b \<Longrightarrow> a' \<le> a \<Longrightarrow> lessNum a' b"
  by (cases b) auto

lemma updateBest_ok:
  assumes ne: "population s \<noteq> []" and al: "popAddrs (population s) \<subseteq> {..<nextAddr w}"
  shows "\<exists>s' w'. updateBest s w = Inr (s', w')
     \<and> population s' = sort_key energy (population s)
     \<and> sim_n s' = sim_n s \<and> populationSize s' = populationSize s
     \<and> nextAddr w \<le> nextAddr w' \<and> rnd w' = rnd w \<and> (\<forall>a<nextAddr w. mem w' a = mem w a)
     \<and> ((bestEnergy s' = bestEnergy s \<and> bestConfig s' = bestConfig s \<and> w' = w
          \<and> (\<forall>ind \<in> set (population s). \<not> lessNum (energy ind) (bestEnergy s)))
         \<or> (\<exists>first copy. first \<in> set (population s)
               \<and> (\<forall>ind \<in> set (population s). energy first \<le> energy ind)
               \<and> lessNum (energy first) (bestEnergy s)
               \<and> bestEnergy s' = Finite (energy first) \<and> bestConfig s' = Some copy
               \<and> set copy \<subseteq> {nextAddr w..<nextAddr w'}
               \<and> map (mem w') copy = map (mem w) (points first)))"
proof -
  define pop where "pop = sort_key energy (population s)"
  have "length pop = length (population s)" by (simp add: pop_def)
  then have "pop \<noteq> []" using ne by auto
  then obtain first rest where fr: "pop = first # rest" by (cases pop) auto
  note hm = sort_key_head_min [OF fr [unfolded pop_def]]
  show ?thesis
  proof (cases "lessNum (energy first) (bestEnergy s)")
    case False
    then have "updateBest s w = Inr (s\<lparr>population := pop\<rparr>, w)"
      by (simp add: updateBest_def Let_def pop_def [symmetric] fr)
    moreover have "\<forall>ind \<in> set (population s). \<not> lessNum (energy ind) (bestEnergy s)"
      using False hm lessNum_mono by blast
    ultimately show ?thesis by (simp add: pop_def)
  next
    case True
    obtain copy w' where cl: "clonePoints (points first) w = (copy, w')"
      by (cases "clonePoints (points first) w")
    have "set (points first) \<subseteq> {..<nextAddr w}" using hm al by (auto simp: popAddrs_def)
    note C = clonePoints_result [OF this cl]
    have u: "updateBest s w
        = Inr (s\<lparr>population := pop, bestEnergy := Finite (energy first), bestConfig := Some copy\<rparr>, w')"
      using True by (simp add: updateBest_def Let_def pop_def [symmetric] fr cl)
    have sub: "set copy \<subseteq> {nextAddr w..<nextAddr w'}" using C by simp
    have "\<exists>f c. f \<in> set (population s) \<and> (\<forall>ind \<in> set (population s). energy f \<le> energy ind)
        \<and> lessNum (energy f) (bestEnergy s) \<and> Finite (energy first) = Finite (energy f)
        \<and> Some copy = Some c \<and> set c \<subseteq> {nextAddr w..<nextAddr w'}
        \<and> map (mem w') c = map (mem w) (points f)"
      using hm True sub C by blast
    then show ?thesis using C by (simp add: u pop_def)
  qed
qed

lemma refineIndividual_result:
  "refineIndividual g ind w = (ind', w') \<Longrightarrow>
     points ind' = points ind \<and> nextAddr w' = nextAddr w \<and> rnd w' = rnd w
     \<and> (\<forall>a. a \<notin> set (points ind) \<longrightarrow> mem w' a = mem w a)"
  by (auto simp: refineIndividual_def Let_def gradientDescent_frame)

lemma refineAll_result:
  "refineAll g pop w = (pop', w') \<Longrightarrow>
     map points pop' = map points pop \<and> nextAddr w' = nextAddr w \<and> rnd w' = rnd w
     \<and> (\<forall>a. a \<notin> popAddrs pop \<longrightarrow> mem w' a = mem w a)"
proof (induction pop arbitrary: w pop' w')
  case Nil
  then show ?case by simp
next
  case (Cons ind rest)
  obtain ind1 w1 where r1: "refineIndividual g ind w = (ind1, w1)"
    by (cases "refineIndividual g ind w")
  obtain rest1 w2 where r2: "refineAll g rest w1 = (rest1, w2)"
    by (cases "refineAll g rest w1")
  have res: "pop' = ind1 # rest1" "w' = w2" using Cons.prems by (simp_all add: r1 r2)
  note A = refineIndividual_result [OF r1]
  note B = Cons.IH [OF r2]
  show ?case using A B by (simp add: res popAddrs_def)
qed

lemma popAddrs_update:
  "popAddrs (pop[k := ind]) \<subseteq> popAddrs pop \<union> set (points ind)"
proof -
  have "set (pop[k := ind]) \<subseteq> insert ind (set pop)" by (rule set_update_subset_insert)
  then show ?thesis by (auto simp: popAddrs_def)
qed

lemma popAddrs_member: "ind \<in> set pop \<Longrightarrow> set (points ind) \<subseteq> popAddrs pop"
  by (auto simp: popAddrs_def)

lemma sset_stl3: "sset (stl (stl (stl s))) \<subseteq> sset s"
  using sset_sdrop_subset [of 3 s] by (simp add: numeral_eq_Suc)

lemma recombine_ok:
  assumes inv: "simInv s w"
  shows "\<exists>w' child e. recombine g i (s, w)
        = Inr (s\<lparr>population := (population s)
                 [populationSize s - 1 - i := \<lparr>points = child, energy = e\<rparr>]\<rparr>, w')
     \<and> set child \<subseteq> {nextAddr w..<nextAddr w'} \<and> nextAddr w \<le> nextAddr w'
     \<and> (\<forall>a<nextAddr w. mem w' a = mem w a) \<and> rngOk w'"
proof -
  let ?pop = "population s"
  have ne: "?pop \<noteq> []" and rng: "rngOk w" and pa: "popAddrs ?pop \<subseteq> {..<nextAddr w}"
    and n1: "1 \<le> sim_n s"
    using inv by (auto simp: simInv_def)
  from tournamentSelect_ok [OF ne rng] obtain p1 w1 where
    t1: "tournamentSelect ?pop w = Inr (Some p1, w1)" "p1 \<in> set ?pop"
        "mem w1 = mem w" "nextAddr w1 = nextAddr w" "rnd w1 = stl (stl (stl (rnd w)))"
    by blast
  have rng1: "rngOk w1" using rngOk_subset [OF rng] t1(5) sset_stl3 by metis
  from tournamentSelect_ok [OF ne rng1] obtain p2 w2 where
    t2: "tournamentSelect ?pop w1 = Inr (Some p2, w2)" "p2 \<in> set ?pop"
        "mem w2 = mem w1" "nextAddr w2 = nextAddr w1" "rnd w2 = stl (stl (stl (rnd w1)))"
    by blast
  have rng2: "rngOk w2" using rngOk_subset [OF rng1] t2(5) sset_stl3 by metis
  obtain child w3 where cr: "crossover (sim_n s) (points p1) (points p2) w2 = (child, w3)"
    by (cases "crossover (sim_n s) (points p1) (points p2) w2")
  have al: "set (points p1) \<union> set (points p2) \<subseteq> {..<nextAddr w2}"
    using popAddrs_member [OF t1(2)] popAddrs_member [OF t2(2)] pa t1(4) t2(4) by auto
  from crossover_parts [OF al cr] have
    c_old: "\<forall>a<nextAddr w2. mem w3 a = mem w2 a" and c_rnd: "sset (rnd w3) \<subseteq> sset (rnd w2)"
    by blast+
  note cc = crossover_child [OF al cr]
  have rng3: "rngOk w3" using rngOk_subset [OF rng2 c_rnd] .
  have cne: "child \<noteq> []" using cc(1) n1 by auto
  from mutate_ok [OF rng3 cne] obtain w4 where mu: "mutate (mutationRate g) child w3 = Inr w4"
    by blast
  note mc = mutate_cases [OF mu]
  have rng4: "rngOk w4" using rngOk_subset [OF rng3] mc by blast
  define w5 where "w5 = gradientDescent (convergenceThreshold g) child (learningRate g * 5) w4"
  define e where "e = calculateEnergy (map (mem w5) child)"
  have f5: "nextAddr w5 = nextAddr w4" "rnd w5 = rnd w4"
    "\<And>a. a \<notin> set child \<Longrightarrow> mem w5 a = mem w4 a"
    by (simp_all add: w5_def gradientDescent_frame)
  have rng5: "rngOk w5" using rng4 f5(2) by (simp add: rngOk_def)
  have n2: "nextAddr w2 = nextAddr w" using t1(4) t2(4) by simp
  have m2: "mem w2 = mem w" using t1(3) t2(3) by simp
  have n5: "nextAddr w5 = nextAddr w3" using f5(1) mc by simp
  have sub: "set child \<subseteq> {nextAddr w..<nextAddr w5}" using cc(2) n2 n5 by simp
  have le: "nextAddr w \<le> nextAddr w5"
  proof -
    obtain a where "a \<in> set child" using cne by (cases child) auto
    then show ?thesis using sub by auto
  qed
  have old: "\<forall>a<nextAddr w. mem w5 a = mem w a"
  proof (intro allI impI)
    fix a assume a: "a < nextAddr w"
    then have nc: "a \<notin> set child" using sub by auto
    have "mem w5 a = mem w4 a" using f5(3) nc by simp
    also have "\<dots> = mem w3 a" using mc nc by simp
    also have "\<dots> = mem w2 a" using c_old a n2 by simp
    finally show "mem w5 a = mem w a" using m2 by simp
  qed
  have "recombine g i (s, w)
        = Inr (s\<lparr>population := ?pop[populationSize s - 1 - i := \<lparr>points = child, energy = e\<rparr>]\<rparr>, w5)"
    by (simp add: recombine_def bindE_def t1(1) t2(1) pointsOf_def cr mu Let_def
        w5_def [symmetric] e_def [symmetric])
  then show ?thesis using sub le old rng5 by blast
qed

lemma recombine_inv:
  assumes inv: "simInv s w"
  shows "\<exists>s' w' child e. recombine g i (s, w) = Inr (s', w')
     \<and> s' = s\<lparr>population := (population s)
                 [populationSize s - 1 - i := \<lparr>points = child, energy = e\<rparr>]\<rparr>
     \<and> set child \<subseteq> {nextAddr w..<nextAddr w'} \<and> nextAddr w \<le> nextAddr w'
     \<and> (\<forall>a<nextAddr w. mem w' a = mem w a) \<and> simInv s' w'"
proof -
  from recombine_ok [OF inv, of g i] obtain w' child e where
    r: "recombine g i (s, w)
        = Inr (s\<lparr>population := (population s)
                 [populationSize s - 1 - i := \<lparr>points = child, energy = e\<rparr>]\<rparr>, w')"
    and sub: "set child \<subseteq> {nextAddr w..<nextAddr w'}" and le: "nextAddr w \<le> nextAddr w'"
    and old: "\<forall>a<nextAddr w. mem w' a = mem w a" and rng: "rngOk w'"
    by blast
  let ?ind = "\<lparr>points = child, energy = e\<rparr>"
  let ?pop = "(population s)[populationSize s - 1 - i := ?ind]"
  let ?s = "s\<lparr>population := ?pop\<rparr>"
  have pu: "popAddrs ?pop \<subseteq> popAddrs (population s) \<union> set child"
    using popAddrs_update [of "population s" "populationSize s - 1 - i" ?ind] by simp
  have pa: "popAddrs (population s) \<subseteq> {..<nextAddr w}" using inv by (simp add: simInv_def)
  have "popAddrs (population s) \<union> set child \<subseteq> {..<nextAddr w'}"
    using pa sub le by (fastforce simp: subset_iff)
  with pu have a: "popAddrs ?pop \<subseteq> {..<nextAddr w'}" by (rule subset_trans)
  have b: "set c \<subseteq> {..<nextAddr w'} \<and> set c \<inter> popAddrs ?pop = {}"
    if c: "bestConfig s = Some c" for c
  proof -
    from inv c have c1: "set c \<subseteq> {..<nextAddr w}" and c2: "set c \<inter> popAddrs (population s) = {}"
      by (auto simp: simInv_def)
    have "set c \<inter> set child = {}" using c1 sub by (fastforce simp: subset_iff)
    with c2 have "set c \<inter> (popAddrs (population s) \<union> set child) = {}" by blast
    with pu have "set c \<inter> popAddrs ?pop = {}" by blast
    moreover have "set c \<subseteq> {..<nextAddr w'}" using c1 le by (fastforce simp: subset_iff)
    ultimately show ?thesis by simp
  qed
  have "simInv ?s w'"
    using inv a b rng by (simp add: simInv_def)
  then show ?thesis using r sub le old by blast
qed

lemma recombineFrom_inv:
  assumes inv: "simInv s w"
  shows "\<exists>s' w'. recombineFrom g js (s, w) = Inr (s', w') \<and> simInv s' w'
     \<and> bestEnergy s' = bestEnergy s \<and> bestConfig s' = bestConfig s
     \<and> populationSize s' = populationSize s \<and> sim_n s' = sim_n s
     \<and> nextAddr w \<le> nextAddr w' \<and> (\<forall>a<nextAddr w. mem w' a = mem w a)
     \<and> length (population s') = length (population s)
     \<and> (\<forall>k<length (population s).
           (k \<notin> (\<lambda>i. populationSize s - 1 - i) ` set js
              \<longrightarrow> population s' ! k = population s ! k)
         \<and> (k \<in> (\<lambda>i. populationSize s - 1 - i) ` set js
              \<longrightarrow> set (points (population s' ! k)) \<subseteq> {nextAddr w..<nextAddr w'}))"
  using inv
proof (induction js arbitrary: s w)
  case Nil
  then show ?case by simp
next
  case (Cons i js)
  from recombine_inv [OF Cons.prems, of g i] obtain s1 w1 child e where
    r: "recombine g i (s, w) = Inr (s1, w1)"
    and s1: "s1 = s\<lparr>population := (population s)
                 [populationSize s - 1 - i := \<lparr>points = child, energy = e\<rparr>]\<rparr>"
    and sub: "set child \<subseteq> {nextAddr w..<nextAddr w1}" and le: "nextAddr w \<le> nextAddr w1"
    and old: "\<forall>a<nextAddr w. mem w1 a = mem w a" and inv1: "simInv s1 w1"
    by blast
  from Cons.IH [OF inv1] obtain s' w' where
    rf: "recombineFrom g js (s1, w1) = Inr (s', w')" and inv': "simInv s' w'"
    and f: "bestEnergy s' = bestEnergy s1" "bestConfig s' = bestConfig s1"
       "populationSize s' = populationSize s1" "sim_n s' = sim_n s1"
    and le': "nextAddr w1 \<le> nextAddr w'" and old': "\<forall>a<nextAddr w1. mem w' a = mem w1 a"
    and len: "length (population s') = length (population s1)"
    and ix: "\<forall>k<length (population s1).
           (k \<notin> (\<lambda>i. populationSize s1 - 1 - i) ` set js
              \<longrightarrow> population s' ! k = population s1 ! k)
         \<and> (k \<in> (\<lambda>i. populationSize s1 - 1 - i) ` set js
              \<longrightarrow> set (points (population s' ! k)) \<subseteq> {nextAddr w1..<nextAddr w'})"
    by blast
  have run: "recombineFrom g (i # js) (s, w) = Inr (s', w')"
    using r rf by (simp add: bindE_def)
  have g1: "bestEnergy s' = bestEnergy s" "bestConfig s' = bestConfig s"
       "populationSize s' = populationSize s" "sim_n s' = sim_n s"
       "length (population s') = length (population s)"
    using f len by (simp_all add: s1)
  have g2: "nextAddr w \<le> nextAddr w'" using le le' by simp
  have g3: "\<forall>a<nextAddr w. mem w' a = mem w a" using old old' le by auto
  have ps: "populationSize s1 = populationSize s" by (simp add: s1)
  have g4: "(k \<notin> (\<lambda>i. populationSize s - 1 - i) ` set (i # js)
              \<longrightarrow> population s' ! k = population s ! k)
         \<and> (k \<in> (\<lambda>i. populationSize s - 1 - i) ` set (i # js)
              \<longrightarrow> set (points (population s' ! k)) \<subseteq> {nextAddr w..<nextAddr w'})"
    if k: "k < length (population s)" for k
  proof (cases "k \<in> (\<lambda>i. populationSize s - 1 - i) ` set js")
    case True
    then have "set (points (population s' ! k)) \<subseteq> {nextAddr w1..<nextAddr w'}"
      using ix k by (simp add: s1)
    then have "set (points (population s' ! k)) \<subseteq> {nextAddr w..<nextAddr w'}"
      using le by (fastforce simp: subset_iff)
    then show ?thesis using True by simp
  next
    case False
    then have same: "population s' ! k = population s1 ! k" using ix k by (simp add: s1)
    show ?thesis
    proof (cases "k = populationSize s - 1 - i")
      case True
      then have "population s1 ! k = \<lparr>points = child, energy = e\<rparr>"
        using k by (simp add: s1)
      then have "set (points (population s' ! k)) \<subseteq> {nextAddr w..<nextAddr w'}"
        using same sub le' by (fastforce simp: subset_iff)
      then show ?thesis using True by simp
    next
      case F2: False
      then have "population s1 ! k = population s ! k" by (simp add: s1)
      then show ?thesis using same False F2 by simp
    qed
  qed
  show ?case
    using run inv' g1 g2 g3 g4 by blast
qed

lemma numLe_refl: "a \<noteq> NaN \<Longrightarrow> numLe a a"
  by (cases a) auto

lemma numLe_trans: "numLe a b \<Longrightarrow> numLe b c \<Longrightarrow> numLe a c"
  by (cases a; cases b; cases c) auto

lemma lowered_refl: "lowered a a"
  by (cases a) auto

lemma lowered_trans: "lowered a b \<Longrightarrow> lowered b c \<Longrightarrow> lowered a c"
  by (cases a; cases b; cases c) auto

lemma lowered_numLe: "lowered a b \<Longrightarrow> b \<noteq> NaN \<Longrightarrow> numLe a b"
  by (cases a; cases b) auto

lemma lowered_NaN: "lowered a b \<Longrightarrow> b \<noteq> NaN \<Longrightarrow> a \<noteq> NaN"
  by (cases a; cases b) auto

lemma updateBest_inv:
  assumes inv: "simInv s w"
  shows "\<exists>s' w'. updateBest s w = Inr (s', w') \<and> simInv s' w'
     \<and> popAddrs (population s') = popAddrs (population s)
     \<and> nextAddr w \<le> nextAddr w' \<and> (\<forall>a<nextAddr w. mem w' a = mem w a)
     \<and> lowered (bestEnergy s') (bestEnergy s)
     \<and> (bestEnergy s' = bestEnergy s \<longrightarrow> bestConfig s' = bestConfig s)
     \<and> (\<forall>ind \<in> set (population s'). \<not> lessNum (energy ind) (bestEnergy s'))"
proof -
  have ne: "population s \<noteq> []" and al: "popAddrs (population s) \<subseteq> {..<nextAddr w}"
    using inv by (auto simp: simInv_def)
  from updateBest_ok [OF ne al] obtain s' w' where
    u: "updateBest s w = Inr (s', w')"
    and p: "population s' = sort_key energy (population s)"
    and f: "sim_n s' = sim_n s" "populationSize s' = populationSize s"
    and le: "nextAddr w \<le> nextAddr w'" and r: "rnd w' = rnd w"
    and old: "\<forall>a<nextAddr w. mem w' a = mem w a"
    and d: "(bestEnergy s' = bestEnergy s \<and> bestConfig s' = bestConfig s \<and> w' = w
          \<and> (\<forall>ind \<in> set (population s). \<not> lessNum (energy ind) (bestEnergy s)))
         \<or> (\<exists>first copy. first \<in> set (population s)
               \<and> (\<forall>ind \<in> set (population s). energy first \<le> energy ind)
               \<and> lessNum (energy first) (bestEnergy s)
               \<and> bestEnergy s' = Finite (energy first) \<and> bestConfig s' = Some copy
               \<and> set copy \<subseteq> {nextAddr w..<nextAddr w'}
               \<and> map (mem w') copy = map (mem w) (points first))"
    by blast
  have pa: "popAddrs (population s') = popAddrs (population s)" by (simp add: p popAddrs_sort)
  have st: "set (population s') = set (population s)" by (simp add: p)
  have rng: "rngOk w'" using inv r by (simp add: simInv_def rngOk_def)
  have base: "1 \<le> sim_n s'" "1 \<le> populationSize s'"
    "populationSize s' = length (population s')"
    using inv f by (auto simp: simInv_def p)
  have base4: "popAddrs (population s') \<subseteq> {..<nextAddr w'}"
    unfolding pa using al le by (fastforce simp: subset_iff)
  from d show ?thesis
  proof
    assume a: "bestEnergy s' = bestEnergy s \<and> bestConfig s' = bestConfig s \<and> w' = w
          \<and> (\<forall>ind \<in> set (population s). \<not> lessNum (energy ind) (bestEnergy s))"
    have "simInv s' w'"
      using inv base base4 a rng pa by (simp add: simInv_def)
    moreover have "\<forall>ind \<in> set (population s'). \<not> lessNum (energy ind) (bestEnergy s')"
      using a st by simp
    ultimately show ?thesis using u pa le old a lowered_refl by auto
  next
    assume "\<exists>first copy. first \<in> set (population s)
               \<and> (\<forall>ind \<in> set (population s). energy first \<le> energy ind)
               \<and> lessNum (energy first) (bestEnergy s)
               \<and> bestEnergy s' = Finite (energy first) \<and> bestConfig s' = Some copy
               \<and> set copy \<subseteq> {nextAddr w..<nextAddr w'}
               \<and> map (mem w') copy = map (mem w) (points first)"
    then obtain first :: individual and copy where
      b: "\<forall>ind \<in> set (population s). energy first \<le> energy ind"
         "lessNum (energy first) (bestEnergy s)"
         "bestEnergy s' = Finite (energy first)" "bestConfig s' = Some copy"
         "set copy \<subseteq> {nextAddr w..<nextAddr w'}"
      by (elim exE conjE)
    have dis: "set copy \<inter> popAddrs (population s') = {}"
      using b(5) al pa by (fastforce simp: subset_iff)
    have cs: "set copy \<subseteq> {..<nextAddr w'}" using b(5) by (fastforce simp: subset_iff)
    have "simInv s' w'"
      using base base4 b(3,4) dis cs rng by (simp add: simInv_def)
    moreover have "\<forall>ind \<in> set (population s'). \<not> lessNum (energy ind) (bestEnergy s')"
      using b(1,3) st by auto
    moreover have "lowered (bestEnergy s') (bestEnergy s)"
      using b(2,3) by simp
    moreover have "bestEnergy s' = bestEnergy s \<longrightarrow> bestConfig s' = bestConfig s"
      using b(2,3) by (cases "bestEnergy s") auto
    ultimately show ?thesis using u pa le old by blast
  qed
qed

lemma lowered_antisym: "lowered a b \<Longrightarrow> lowered b c \<Longrightarrow> a = c \<Longrightarrow> b = c"
  by (cases a; cases b; cases c) auto

lemma popAddrs_map: "popAddrs pop = \<Union> (set ` set (map points pop))"
  by (auto simp: popAddrs_def)

lemma popAddrs_index:
  assumes len: "length pop' = length pop"
    and ix: "\<forall>k<length pop. pop' ! k = pop ! k \<or> set (points (pop' ! k)) \<subseteq> F"
  shows "popAddrs pop' \<subseteq> popAddrs pop \<union> F"
proof
  fix x assume "x \<in> popAddrs pop'"
  then obtain ind where i: "ind \<in> set pop'" and x: "x \<in> set (points ind)"
    by (auto simp: popAddrs_def)
  from i obtain k where k: "k < length pop'" "pop' ! k = ind" by (auto simp: in_set_conv_nth)
  from ix k len have "ind = pop ! k \<or> set (points ind) \<subseteq> F" by auto
  then show "x \<in> popAddrs pop \<union> F"
  proof
    assume "ind = pop ! k"
    then have "ind \<in> set pop" using k len by simp
    then show ?thesis using x by (auto simp: popAddrs_def)
  next
    assume "set (points ind) \<subseteq> F"
    then show ?thesis using x by auto
  qed
qed

lemma step_inv:
  assumes inv: "simInv s w"
  shows "\<exists>d s' w'. step g s w = Inr (d, s', w') \<and> simInv s' w'
     \<and> lowered (bestEnergy s') (bestEnergy s)
     \<and> (bestEnergy s' = bestEnergy s \<longrightarrow> bestConfig s' = bestConfig s)
     \<and> nextAddr w \<le> nextAddr w'
     \<and> (\<forall>a<nextAddr w. a \<notin> popAddrs (population s)
           \<longrightarrow> mem w' a = mem w a \<and> a \<notin> popAddrs (population s'))
     \<and> (\<forall>ind \<in> set (population s'). \<not> lessNum (energy ind) (bestEnergy s'))
     \<and> d = absDiff (bestEnergy s) (bestEnergy s')"
proof -
  obtain pop1 w1 where ra: "refineAll g (population s) w = (pop1, w1)"
    by (cases "refineAll g (population s) w")
  note R = refineAll_result [OF ra]
  have len1: "length pop1 = length (population s)"
    using R [THEN conjunct1] by (metis length_map)
  have pa1: "popAddrs pop1 = popAddrs (population s)"
    using R [THEN conjunct1] by (simp add: popAddrs_map)
  have n1: "nextAddr w1 = nextAddr w" and r1: "rnd w1 = rnd w"
    and m1: "\<And>a. a \<notin> popAddrs (population s) \<Longrightarrow> mem w1 a = mem w a"
    using R by simp_all
  let ?sa = "s\<lparr>population := pop1\<rparr>"
  have inva: "simInv ?sa w1"
    using inv by (simp add: simInv_def len1 pa1 n1 rngOk_def r1)
  from updateBest_inv [OF inva] obtain s2 w2 where
    u2: "updateBest ?sa w1 = Inr (s2, w2)" and inv2: "simInv s2 w2"
    and pa2: "popAddrs (population s2) = popAddrs (population ?sa)"
    and n2: "nextAddr w1 \<le> nextAddr w2" and m2: "\<forall>a<nextAddr w1. mem w2 a = mem w1 a"
    and l2: "lowered (bestEnergy s2) (bestEnergy ?sa)"
    and c2: "bestEnergy s2 = bestEnergy ?sa \<longrightarrow> bestConfig s2 = bestConfig ?sa"
    by blast
  from recombineFrom_inv [OF inv2, of g "[0..<populationSize s2 div 2]"] obtain s3 w3 where
    u3: "recombineFrom g [0..<populationSize s2 div 2] (s2, w2) = Inr (s3, w3)"
    and inv3: "simInv s3 w3"
    and b3: "bestEnergy s3 = bestEnergy s2" "bestConfig s3 = bestConfig s2"
    and n3: "nextAddr w2 \<le> nextAddr w3" and m3: "\<forall>a<nextAddr w2. mem w3 a = mem w2 a"
    and len3: "length (population s3) = length (population s2)"
    and ix3: "\<forall>k<length (population s2).
           (k \<notin> (\<lambda>i. populationSize s2 - 1 - i) ` set [0..<populationSize s2 div 2]
              \<longrightarrow> population s3 ! k = population s2 ! k)
         \<and> (k \<in> (\<lambda>i. populationSize s2 - 1 - i) ` set [0..<populationSize s2 div 2]
              \<longrightarrow> set (points (population s3 ! k)) \<subseteq> {nextAddr w2..<nextAddr w3})"
    by blast
  have pa3: "popAddrs (population s3) \<subseteq> popAddrs (population s2) \<union> {nextAddr w2..<nextAddr w3}"
    by (rule popAddrs_index [OF len3]) (use ix3 in blast)
  from updateBest_inv [OF inv3] obtain s4 w4 where
    u4: "updateBest s3 w3 = Inr (s4, w4)" and inv4: "simInv s4 w4"
    and pa4: "popAddrs (population s4) = popAddrs (population s3)"
    and n4: "nextAddr w3 \<le> nextAddr w4" and m4: "\<forall>a<nextAddr w3. mem w4 a = mem w3 a"
    and l4: "lowered (bestEnergy s4) (bestEnergy s3)"
    and c4: "bestEnergy s4 = bestEnergy s3 \<longrightarrow> bestConfig s4 = bestConfig s3"
    and min4: "\<forall>ind \<in> set (population s4). \<not> lessNum (energy ind) (bestEnergy s4)"
    by blast
  have run: "step g s w = Inr (absDiff (bestEnergy s) (bestEnergy s4), s4, w4)"
    by (simp add: step_def Let_def ra bindE_def u2 u3 u4)
  have l2': "lowered (bestEnergy s2) (bestEnergy s)" using l2 by simp
  have l4': "lowered (bestEnergy s4) (bestEnergy s2)" using l4 b3 by simp
  have low: "lowered (bestEnergy s4) (bestEnergy s)" using lowered_trans [OF l4' l2'] .
  have cfg: "bestEnergy s4 = bestEnergy s \<longrightarrow> bestConfig s4 = bestConfig s"
  proof
    assume e: "bestEnergy s4 = bestEnergy s"
    from lowered_antisym [OF l4' l2' e] have e2: "bestEnergy s2 = bestEnergy s" .
    then have "bestConfig s2 = bestConfig s" using c2 by simp
    moreover have "bestEnergy s4 = bestEnergy s3" using e e2 b3 by simp
    ultimately show "bestConfig s4 = bestConfig s" using c4 b3 by simp
  qed
  have nx: "nextAddr w \<le> nextAddr w4" using n1 n2 n3 n4 by simp
  have frame: "mem w4 a = mem w a \<and> a \<notin> popAddrs (population s4)"
    if a: "a < nextAddr w" and na: "a \<notin> popAddrs (population s)" for a
  proof -
    have "mem w4 a = mem w3 a" using m4 a n1 n2 n3 by simp
    also have "\<dots> = mem w2 a" using m3 a n1 n2 by simp
    also have "\<dots> = mem w1 a" using m2 a n1 by simp
    also have "\<dots> = mem w a" using m1 na by simp
    finally have A: "mem w4 a = mem w a" .
    have "a \<notin> popAddrs (population s2)" using na pa2 pa1 by simp
    moreover have "a \<notin> {nextAddr w2..<nextAddr w3}" using a n1 n2 by simp
    ultimately have "a \<notin> popAddrs (population s3)" using pa3 by blast
    then show ?thesis using A pa4 by simp
  qed
  show ?thesis
    using run inv4 low cfg nx frame min4 by blast
qed

lemma steps_inv:
  assumes inv: "simInv s w"
  shows "\<exists>s' w'. steps gs (s, w) = Inr (s', w') \<and> simInv s' w'
     \<and> lowered (bestEnergy s') (bestEnergy s)
     \<and> (bestEnergy s' = bestEnergy s \<longrightarrow> bestConfig s' = bestConfig s)
     \<and> nextAddr w \<le> nextAddr w'
     \<and> (\<forall>a<nextAddr w. a \<notin> popAddrs (population s)
           \<longrightarrow> mem w' a = mem w a \<and> a \<notin> popAddrs (population s'))"
  using inv
proof (induction gs arbitrary: s w)
  case Nil
  then show ?case by (simp add: lowered_refl)
next
  case (Cons g gs)
  from step_inv [OF Cons.prems, of g] obtain d s1 w1 where
    st: "step g s w = Inr (d, s1, w1)" and inv1: "simInv s1 w1"
    and l1: "lowered (bestEnergy s1) (bestEnergy s)"
    and c1: "bestEnergy s1 = bestEnergy s \<longrightarrow> bestConfig s1 = bestConfig s"
    and n1: "nextAddr w \<le> nextAddr w1"
    and f1: "\<forall>a<nextAddr w. a \<notin> popAddrs (population s)
           \<longrightarrow> mem w1 a = mem w a \<and> a \<notin> popAddrs (population s1)"
    by blast
  from Cons.IH [OF inv1] obtain s' w' where
    ss: "steps gs (s1, w1) = Inr (s', w')" and inv': "simInv s' w'"
    and l': "lowered (bestEnergy s') (bestEnergy s1)"
    and c': "bestEnergy s' = bestEnergy s1 \<longrightarrow> bestConfig s' = bestConfig s1"
    and n': "nextAddr w1 \<le> nextAddr w'"
    and f': "\<forall>a<nextAddr w1. a \<notin> popAddrs (population s1)
           \<longrightarrow> mem w' a = mem w1 a \<and> a \<notin> popAddrs (population s')"
    by blast
  have run: "steps (g # gs) (s, w) = Inr (s', w')" using st ss by (simp add: bindE_def)
  have low: "lowered (bestEnergy s') (bestEnergy s)" using lowered_trans [OF l' l1] .
  have cfg: "bestEnergy s' = bestEnergy s \<longrightarrow> bestConfig s' = bestConfig s"
  proof
    assume e: "bestEnergy s' = bestEnergy s"
    from lowered_antisym [OF l' l1 e] have "bestEnergy s1 = bestEnergy s" .
    then show "bestConfig s' = bestConfig s" using c1 c' e by simp
  qed
  have nx: "nextAddr w \<le> nextAddr w'" using n1 n' by simp
  have frame: "\<forall>a<nextAddr w. a \<notin> popAddrs (population s)
           \<longrightarrow> mem w' a = mem w a \<and> a \<notin> popAddrs (population s')"
  proof (intro allI impI)
    fix a assume a: "a < nextAddr w" and na: "a \<notin> popAddrs (population s)"
    from f1 a na have A: "mem w1 a = mem w a" "a \<notin> popAddrs (population s1)" by simp_all
    have "a < nextAddr w1" using a n1 by simp
    with f' A(2) have "mem w' a = mem w1 a" "a \<notin> popAddrs (population s')" by simp_all
    then show "mem w' a = mem w a \<and> a \<notin> popAddrs (population s')" using A by simp
  qed
  show ?case using run inv' low cfg nx frame by blast
qed

lemma popAddrs_snoc: "popAddrs (pop @ [ind]) = popAddrs pop \<union> set (points ind)"
  by (auto simp: popAddrs_def)

lemma pushIndividual_result:
  assumes al: "popAddrs pop \<subseteq> {..<nextAddr w}" and rng: "rngOk w"
    and pu: "pushIndividual g n i (pop, w) = (pop', w')"
  shows "length pop' = length pop + 1 \<and> popAddrs pop' \<subseteq> {..<nextAddr w'} \<and> rngOk w'"
proof -
  obtain cfg w1 where cr: "createRandomConfig n w = (cfg, w1)"
    by (cases "createRandomConfig n w")
  note C = createRandomConfig_result [OF cr]
  define w2 where "w2 = gradientDescent (convergenceThreshold g) cfg (1 / 10) w1"
  define e where "e = calculateEnergy (map (mem w2) cfg)"
  have res: "pop' = pop @ [\<lparr>points = cfg, energy = e\<rparr>]" "w' = w2"
    using pu by (auto simp: pushIndividual_def cr Let_def w2_def e_def)
  have n2: "nextAddr w2 = nextAddr w + n" "rnd w2 = sdrop (2 * n) (rnd w)"
    using C by (simp_all add: w2_def gradientDescent_frame)
  have "sset (rnd w2) \<subseteq> sset (rnd w)" unfolding n2(2) by (rule sset_sdrop_subset)
  then have r: "rngOk w2" using rngOk_subset [OF rng] by simp
  have "set cfg \<subseteq> {..<nextAddr w2}" using C n2(1) by auto
  moreover have "popAddrs pop \<subseteq> {..<nextAddr w2}" using al n2(1) by (fastforce simp: subset_iff)
  ultimately have "popAddrs pop' \<subseteq> {..<nextAddr w2}" by (simp add: res popAddrs_snoc)
  then show ?thesis using r by (simp add: res)
qed

lemma pushIndividual_fold:
  assumes "popAddrs pop \<subseteq> {..<nextAddr w}" and "rngOk w"
    and "fold (pushIndividual g n) js (pop, w) = (pop', w')"
  shows "length pop' = length pop + length js \<and> popAddrs pop' \<subseteq> {..<nextAddr w'} \<and> rngOk w'"
  using assms
proof (induction js arbitrary: pop w)
  case Nil
  then show ?case by simp
next
  case (Cons i js)
  obtain pop1 w1 where p1: "pushIndividual g n i (pop, w) = (pop1, w1)"
    by (cases "pushIndividual g n i (pop, w)")
  note P = pushIndividual_result [OF Cons.prems(1,2) p1]
  have f: "fold (pushIndividual g n) js (pop1, w1) = (pop', w')"
    using Cons.prems(3) by (simp add: p1)
  from Cons.IH [OF _ _ f] P show ?case by simp
qed

lemma newSimulation_inv:
  assumes rng: "rngOk w" and n: "1 \<le> n" and p: "1 \<le> popSize"
  shows "\<exists>s w'. newSimulation g popSize n w = Inr (s, w') \<and> simInv s w'
     \<and> sim_n s = n \<and> populationSize s = popSize"
proof -
  let ?s0 = "\<lparr>sim_n = n, populationSize = popSize, population = [], bestConfig = None,
        bestEnergy = Infinity\<rparr>"
  obtain pop w1 where f: "fold (pushIndividual g n) [0..<popSize] ([], w) = (pop, w1)"
    by (cases "fold (pushIndividual g n) [0..<popSize] ([], w)")
  have e: "popAddrs [] \<subseteq> {..<nextAddr w}" by (simp add: popAddrs_def)
  note F = pushIndividual_fold [OF e rng f]
  have inv: "simInv (?s0\<lparr>population := pop\<rparr>) w1"
    using F n p by (simp add: simInv_def)
  have ne: "population (?s0\<lparr>population := pop\<rparr>) \<noteq> []" using F p by auto
  have al: "popAddrs (population (?s0\<lparr>population := pop\<rparr>)) \<subseteq> {..<nextAddr w1}"
    using F by simp
  from updateBest_ok [OF ne al] obtain s w' where
    u: "updateBest (?s0\<lparr>population := pop\<rparr>) w1 = Inr (s, w')"
    and fld0: "sim_n s = sim_n (?s0\<lparr>population := pop\<rparr>)"
      "populationSize s = populationSize (?s0\<lparr>population := pop\<rparr>)"
    by blast
  have fld: "sim_n s = n" "populationSize s = popSize" using fld0 by simp_all
  from updateBest_inv [OF inv] u have "simInv s w'" by auto
  moreover have "newSimulation g popSize n w = Inr (s, w')"
    using u by (simp add: newSimulation_def initPopulation_def f)
  ultimately show ?thesis using fld by blast
qed




lemma calculateEnergy_one: "calculateEnergy [p] = 0"
  by (simp add: calculateEnergy_def)

lemma calculateEnergy_single: "calculateEnergy (map f [a]) = 0"
  by (simp add: calculateEnergy_def)

lemma gdIteration_single: "mem w a = Vector3 1 0 0 \<Longrightarrow> gdIteration [a] lr w = w"
  by (simp add: gdIteration_def computeForces_def movePoint_def Let_def zeroVector_def
      dot_def sub_def multiplyScalar_def addScaledVector_def normalize_def vlength_def
      lengthSq_def divideScalar_def add_def fun_upd_idem)

lemma gradientDescent_single:
  assumes m: "mem w a = Vector3 1 0 0" and thr: "0 \<le> thr"
  shows "gradientDescent thr [a] lr w = w"
proof -
  have "gdLoop thr [a] lr (w, Infinity, 0, 0) = gdLoop thr [a] lr (w, Finite \<bar>0 - 0\<bar>, 0, 1)"
    by (rule gdLoop_continue [OF _ _ gdIteration_single [OF m] calculateEnergy_single])
       (simp_all add: maxIter_def)
  also have "\<dots> = (w, Finite \<bar>0 - 0\<bar>, 0, 1)"
    by (rule gdLoop_stop) (use thr in simp)
  finally show ?thesis by (simp add: gradientDescent_def calculateEnergy_one)
qed









lemma duo_inv: "simInv duoSim duo"
  by (simp add: simInv_def duoSim_def duo_def popAddrs_def rngOk_def)

lemma duo_refine:
  "refineAll pageSettings (population duoSim) duo = (population duoSim, duo)"
proof -
  have a: "gradientDescent (1 / 100000000) [0] (1 / 100) duo = duo"
    by (rule gradientDescent_single) (simp_all add: duo_def)
  have b: "gradientDescent (1 / 100000000) [Suc 0] (1 / 100) duo = duo"
    by (rule gradientDescent_single) (simp_all add: duo_def)
  show ?thesis
    by (simp add: duoSim_def refineIndividual_def pageSettings_def a b calculateEnergy_one)
qed

lemma duo_record: "updateBest duoSim duo = Inr (duoSimRecorded, duoRecorded)"
  by (simp add: updateBest_def duoSim_def clonePoints_def clonePoint_def alloc_def duo_def
      duoSimRecorded_def duoRecorded_def)

lemma duoRecorded_select:
  "tournamentSelect [i0, i1] (w\<lparr>rnd := 3/4 ## 3/4 ## 3/4 ## r\<rparr>) = Inr (Some i1, w\<lparr>rnd := r\<rparr>)"
  by (simp add: tournamentSelect_def tournamentRound_def random_def bindE_def Let_def)

lemma duo_select:
  "tournamentSelect (population duoSimRecorded) duoRecorded
     = Inr (Some \<lparr>points = [1], energy = 0\<rparr>,
            duoRecorded\<lparr>rnd := shift [3/4, 3/4, 3/4, 0, 1/2, 1/2] (sconst (3/4))\<rparr>)"
proof -
  have "duoRecorded = duoRecorded\<lparr>rnd := 3/4 ## 3/4 ## 3/4
      ## shift [3/4, 3/4, 3/4, 0, 1/2, 1/2] (sconst (3/4))\<rparr>"
    by (simp add: duoRecorded_def)
  then show ?thesis
    using duoRecorded_select [where ?i0.0 = "\<lparr>points = [0], energy = 0\<rparr>"
        and ?i1.0 = "\<lparr>points = [1], energy = 0\<rparr>" and w = duoRecorded
        and r = "shift [3/4, 3/4, 3/4, 0, 1/2, 1/2] (sconst (3/4))"]
    by (simp add: duoSimRecorded_def)
qed

lemma duo_select2:
  "tournamentSelect (population duoSimRecorded)
       (duoRecorded\<lparr>rnd := shift [3/4, 3/4, 3/4, 0, 1/2, 1/2] (sconst (3/4))\<rparr>)
     = Inr (Some \<lparr>points = [1], energy = 0\<rparr>,
            duoRecorded\<lparr>rnd := shift [0, 1/2, 1/2] (sconst (3/4))\<rparr>)"
  using duoRecorded_select [where ?i0.0 = "\<lparr>points = [0], energy = 0\<rparr>"
        and ?i1.0 = "\<lparr>points = [1], energy = 0\<rparr>" and w = duoRecorded
        and r = "shift [0, 1/2, 1/2] (sconst (3/4))"]
  by (simp add: duoSimRecorded_def)

lemma duo_crossover:
  "crossover 1 [1] [1] (duoRecorded\<lparr>rnd := shift [0, 1/2, 1/2] (sconst (3/4))\<rparr>)
     = ([3], duoNext\<lparr>rnd := 1/2 ## sconst (3/4)\<rparr>)"
proof -
  let ?w = "duoRecorded\<lparr>rnd := shift [0, 1/2, 1/2] (sconst (3/4))\<rparr>"
  let ?w1 = "duoRecorded\<lparr>rnd := 1/2 ## sconst (3/4)\<rparr>"
  let ?w2 = "duoNext\<lparr>rnd := 1/2 ## sconst (3/4)\<rparr>"
  have normal: "randomPointOnSphere ?w = (Vector3 1 0 0, ?w1)"
    by (simp add: randomPointOnSphere_def random_def duoRecorded_def Let_def arccos_0)
  have inh: "fold (inheritPoint (\<lambda>p. dot p (Vector3 1 0 0) < 0)) [1]
       (fold (inheritPoint (\<lambda>p. 0 \<le> dot p (Vector3 1 0 0))) [1] ([], ?w1))
     = ([3], ?w2)"
    by (simp add: inheritPoint_eq duoRecorded_def duoNext_def dot_def alloc_def)
  have pad: "padChild 1 ([3], ?w2) = ([3], ?w2)"
    by (subst padChild.simps) simp
  have trim: "trimChild 1 ?w2 [3] = [3]" by (subst trimChild.simps) simp
  show ?thesis
    by (simp only: crossover_def normal Let_def prod.case inh pad trim)
qed

lemma duo_mutate:
  "mutate (1 / 5) [3] (duoNext\<lparr>rnd := 1/2 ## sconst (3/4)\<rparr>) = Inr duoNext"
  by (simp add: mutate_def random_def duoNext_def)

lemma duo_descent: "gradientDescent (1 / 10 ^ 8) [3] (1 / 100 * 5) duoNext = duoNext"
  by (rule gradientDescent_single) (simp_all add: duoNext_def)

lemma duo_recombine:
  "recombine pageSettings 0 (duoSimRecorded, duoRecorded) = Inr (duoSimNext, duoNext)"
proof -
  have s: "sim_n duoSimRecorded = 1" "populationSize duoSimRecorded = 2"
    "mutationRate pageSettings = 1 / 5" "convergenceThreshold pageSettings = 1 / 10 ^ 8"
    "learningRate pageSettings = 1 / 100"
    by (simp_all add: duoSimRecorded_def pageSettings_def)
  have u: "duoSimRecorded\<lparr>population := (population duoSimRecorded)
        [2 - 1 - 0 := \<lparr>points = [3], energy = 0\<rparr>]\<rparr> = duoSimNext"
    by (simp add: duoSimRecorded_def duoSimNext_def)
  show ?thesis
    unfolding recombine_def prod.case Let_def duo_select bindE_def sum.case duo_select2
      pointsOf_def option.case individual.simps s duo_crossover duo_mutate duo_descent
      calculateEnergy_single u ..
qed

lemma duo_keep: "updateBest duoSimNext duoNext = Inr (duoSimNext, duoNext)"
  by (simp add: updateBest_def duoSimNext_def)

lemma duo_step: "step pageSettings duoSim duo = Inr (Infinity, duoSimNext, duoNext)"
proof -
  have e: "duoSim\<lparr>population := population duoSim\<rparr> = duoSim" by simp
  have p: "populationSize duoSimRecorded div 2 = 1" by (simp add: duoSimRecorded_def)
  have r: "recombineFrom pageSettings [0..<1] (duoSimRecorded, duoRecorded)
      = Inr (duoSimNext, duoNext)"
    by (simp add: duo_recombine bindE_def)
  have d: "absDiff (bestEnergy duoSim) (bestEnergy duoSimNext) = Infinity"
    by (simp add: duoSim_def duoSimNext_def)
  show ?thesis
    unfolding step_def Let_def duo_refine prod.case e duo_record bindE_def sum.case p r
      duo_keep d ..
qed

lemma duo_steps: "steps [pageSettings] (duoSim, duo) = Inr (duoSimNext, duoNext)"
  by (simp add: duo_step bindE_def)

text \<open>
  C3. From a state of a simulation in which the population holds \<open>populationSize\<close>
  individuals, at least one, of at least one point each, the points of the population and
  of the recorded best configuration are allocated, the recorded configuration shares no
  point with an individual, the recorded energy is a number or \<open>Infinity\<close> and
  \<open>Math.random\<close> yields values in \<open>[0, 1)\<close> (\<open>simInv\<close>; the constructor makes such a
  state): every sequence of calls of \<open>step\<close> returns, and leaves the recorded best energy
  at most what it was: unchanged, together with the recorded configuration, or a smaller
  number; the recorded configuration shares no point with an individual of the
  population, and the points of the configuration recorded at the start still have the
  values they had. A call of \<open>updateBest\<close> sorts the population and either changes
  nothing, when no individual has an energy below the record, or records the smallest
  energy of the population, which is below the record, with a copy of that individual's
  points at new addresses.
\<close>

theorem best_record_monotone:
  assumes "simInv s w"
  shows "(\<exists>s' w'. steps gs (s, w) = Inr (s', w')
       \<and> numLe (bestEnergy s') (bestEnergy s)
       \<and> lowered (bestEnergy s') (bestEnergy s)
       \<and> (bestEnergy s' = bestEnergy s \<longrightarrow> bestConfig s' = bestConfig s)
       \<and> (\<forall>c. bestConfig s' = Some c \<longrightarrow> set c \<inter> popAddrs (population s') = {})
       \<and> (\<forall>c. bestConfig s = Some c \<longrightarrow> map (mem w') c = map (mem w) c)
       \<and> simInv s' w')
     \<and> (\<exists>s' w'. updateBest s w = Inr (s', w')
       \<and> population s' = sort_key energy (population s)
       \<and> ((bestEnergy s' = bestEnergy s \<and> bestConfig s' = bestConfig s \<and> w' = w
            \<and> (\<forall>ind \<in> set (population s). \<not> lessNum (energy ind) (bestEnergy s)))
          \<or> (\<exists>first copy. first \<in> set (population s)
               \<and> (\<forall>ind \<in> set (population s). energy first \<le> energy ind)
               \<and> lessNum (energy first) (bestEnergy s)
               \<and> bestEnergy s' = Finite (energy first) \<and> bestConfig s' = Some copy
               \<and> set copy \<subseteq> {nextAddr w..<nextAddr w'}
               \<and> map (mem w') copy = map (mem w) (points first))))
     \<and> (rngOk w0 \<and> 1 \<le> n \<and> 1 \<le> popSize
          \<longrightarrow> (\<exists>s0 w1. newSimulation g popSize n w0 = Inr (s0, w1) \<and> simInv s0 w1))"
proof -
  from steps_inv [OF assms, of gs] obtain s' w' where
    st: "steps gs (s, w) = Inr (s', w')" and inv': "simInv s' w'"
    and low: "lowered (bestEnergy s') (bestEnergy s)"
    and cfg: "bestEnergy s' = bestEnergy s \<longrightarrow> bestConfig s' = bestConfig s"
    and frame: "\<forall>a<nextAddr w. a \<notin> popAddrs (population s)
           \<longrightarrow> mem w' a = mem w a \<and> a \<notin> popAddrs (population s')"
    by blast
  have nn: "bestEnergy s \<noteq> NaN" using assms by (simp add: simInv_def)
  have le: "numLe (bestEnergy s') (bestEnergy s)" using lowered_numLe [OF low nn] .
  have dis: "\<forall>c. bestConfig s' = Some c \<longrightarrow> set c \<inter> popAddrs (population s') = {}"
    using inv' by (simp add: simInv_def)
  have keep: "\<forall>c. bestConfig s = Some c \<longrightarrow> map (mem w') c = map (mem w) c"
  proof (intro allI impI)
    fix c assume c: "bestConfig s = Some c"
    then have c1: "set c \<subseteq> {..<nextAddr w}" and c2: "set c \<inter> popAddrs (population s) = {}"
      using assms by (auto simp: simInv_def)
    have "mem w' a = mem w a" if "a \<in> set c" for a
    proof -
      have "a < nextAddr w" "a \<notin> popAddrs (population s)" using that c1 c2 by auto
      then show ?thesis using frame by simp
    qed
    then show "map (mem w') c = map (mem w) c" by simp
  qed
  have A: "\<exists>s' w'. steps gs (s, w) = Inr (s', w')
       \<and> numLe (bestEnergy s') (bestEnergy s)
       \<and> lowered (bestEnergy s') (bestEnergy s)
       \<and> (bestEnergy s' = bestEnergy s \<longrightarrow> bestConfig s' = bestConfig s)
       \<and> (\<forall>c. bestConfig s' = Some c \<longrightarrow> set c \<inter> popAddrs (population s') = {})
       \<and> (\<forall>c. bestConfig s = Some c \<longrightarrow> map (mem w') c = map (mem w) c)
       \<and> simInv s' w'"
    by (intro exI [of _ s'] exI [of _ w'] conjI st le low cfg dis keep inv')
  have ne: "population s \<noteq> []" and al: "popAddrs (population s) \<subseteq> {..<nextAddr w}"
    using assms by (auto simp: simInv_def)
  from updateBest_ok [OF ne al] have B: "\<exists>s' w'. updateBest s w = Inr (s', w')
       \<and> population s' = sort_key energy (population s)
       \<and> ((bestEnergy s' = bestEnergy s \<and> bestConfig s' = bestConfig s \<and> w' = w
            \<and> (\<forall>ind \<in> set (population s). \<not> lessNum (energy ind) (bestEnergy s)))
          \<or> (\<exists>first copy. first \<in> set (population s)
               \<and> (\<forall>ind \<in> set (population s). energy first \<le> energy ind)
               \<and> lessNum (energy first) (bestEnergy s)
               \<and> bestEnergy s' = Finite (energy first) \<and> bestConfig s' = Some copy
               \<and> set copy \<subseteq> {nextAddr w..<nextAddr w'}
               \<and> map (mem w') copy = map (mem w) (points first)))"
    by blast
  have C: "rngOk w0 \<and> 1 \<le> n \<and> 1 \<le> popSize
          \<longrightarrow> (\<exists>s0 w1. newSimulation g popSize n w0 = Inr (s0, w1) \<and> simInv s0 w1)"
    using newSimulation_inv [of w0 n popSize g] by blast
  show ?thesis using A B C by (intro conjI)
qed

theorem best_record_monotone_witness:
  "simInv duoSim duo
   \<and> steps [pageSettings] (duoSim, duo) = Inr (duoSimNext, duoNext)
   \<and> bestEnergy duoSim = Infinity \<and> bestEnergy duoSimNext = Finite 0
   \<and> numLe (bestEnergy duoSimNext) (bestEnergy duoSim)
   \<and> bestConfig duoSimNext = Some [2]
   \<and> set [2] \<inter> popAddrs (population duoSimNext) = {}
   \<and> simInv duoSimNext duoNext"
proof -
  from best_record_monotone [OF duo_inv, of "[pageSettings]", THEN conjunct1]
  obtain s' w' where st: "steps [pageSettings] (duoSim, duo) = Inr (s', w')"
    and le: "numLe (bestEnergy s') (bestEnergy duoSim)"
    and dis: "\<forall>c. bestConfig s' = Some c \<longrightarrow> set c \<inter> popAddrs (population s') = {}"
    and inv: "simInv s' w'"
    by blast
  have eq: "s' = duoSimNext" "w' = duoNext" using st duo_steps by simp_all
  have b: "bestConfig duoSimNext = Some [2]" by (simp add: duoSimNext_def)
  have d: "set [2] \<inter> popAddrs (population duoSimNext) = {}" using dis b eq by blast
  have e: "bestEnergy duoSim = Infinity" "bestEnergy duoSimNext = Finite 0"
    by (simp_all add: duoSim_def duoSimNext_def)
  show ?thesis
    using duo_inv duo_steps e le [unfolded eq] b d inv [unfolded eq] by (intro conjI)
qed




end
